theory Spec2Isabelle
  imports Main "HOL-Library.DAList" "HOL-Library.Multiset"
begin

section \<open>The Wikipedia link graph of wiki.py\<close>

subsection \<open>Data model\<close>

text \<open>
  A page is identified by its title, a Python \<open>str\<close>. A title is modelled by its
  UTF-8 encoding, the bytes that the edge list and the cache file hold for it: a
  character of ASCII is one byte, any other character a sequence of two to four bytes,
  and two titles are equal exactly when their encodings are.
\<close>

type_synonym title = string

text \<open>
  \<open>self.adj_list\<close> is a Python \<open>dict\<close> from a title to the list of its out-links. A
  \<open>dict\<close> has distinct keys and keeps them in insertion order; assigning to a key that
  is present replaces the value in place, assigning to a new key appends an entry.
  That is the type of distinct association lists: \<open>DAList.impl_of\<close> is \<open>items()\<close>,
  \<open>DAList.lookup\<close> is subscription, \<open>DAList.update\<close> is \<open>d[k] = v\<close>.
\<close>

type_synonym adjacency = "(title, title list) alist"

text \<open>The attributes that \<open>WikipediaGraph.__init__\<close> creates.\<close>

record graph =
  cache_file :: string
  adj_list :: adjacency
  start_page :: "title option"
  end_page :: "title option"

text \<open>\<open>title in self.adj_list\<close>\<close>

definition contains :: "adjacency \<Rightarrow> title \<Rightarrow> bool" where
  "contains adj t = (DAList.lookup adj t \<noteq> None)"

text \<open>\<open>self.adj_list.get(page_title, [])\<close>\<close>

definition get_connections :: "graph \<Rightarrow> title \<Rightarrow> title list" where
  "get_connections g page_title =
     (case DAList.lookup (adj_list g) page_title of None \<Rightarrow> [] | Some links \<Rightarrow> links)"

subsection \<open>Shortest path\<close>

text \<open>
  What \<open>find_shortest_path\<close> returns: \<open>None\<close>, the two-element list
  \<open>[0, [start_page]]\<close> of the case \<open>start_page == end_page\<close> (an integer followed by a
  list of titles), or a list of titles.
\<close>

datatype path_result = PyNone | PyTagged int "title list" | PyPath "title list"

text \<open>
  The \<open>for\<close> loop over the neighbours of the current page: a neighbour that is not
  in \<open>visited\<close> is appended to the queue with the extended path and added to
  \<open>visited\<close>.
\<close>

fun enqueue_neighbors ::
  "title list \<Rightarrow> title list \<Rightarrow> (title \<times> title list) list \<Rightarrow> title set
     \<Rightarrow> (title \<times> title list) list \<times> title set" where
  "enqueue_neighbors path [] queue visited = (queue, visited)"
| "enqueue_neighbors path (neighbor # rest) queue visited =
     (if neighbor \<notin> visited
      then enqueue_neighbors path rest (queue @ [(neighbor, path @ [neighbor])])
             (insert neighbor visited)
      else enqueue_neighbors path rest queue visited)"

text \<open>The titles that the loop can ever put into \<open>visited\<close> through a neighbour list.\<close>

definition link_targets :: "graph \<Rightarrow> title set" where
  "link_targets g = (\<Union>entry \<in> set (DAList.impl_of (adj_list g)). set (snd entry))"

lemma finite_link_targets: "finite (link_targets g)"
  by (simp add: link_targets_def)

lemma get_connections_targets: "set (get_connections g t) \<subseteq> link_targets g"
proof (cases "DAList.lookup (adj_list g) t")
  case None
  then show ?thesis by (simp add: get_connections_def)
next
  case (Some links)
  then have "(t, links) \<in> set (DAList.impl_of (adj_list g))"
    by (simp add: DAList.lookup.rep_eq)
  then have "set (snd (t, links)) \<subseteq> link_targets g"
    unfolding link_targets_def by (rule UN_upper)
  then show ?thesis
    using Some by (simp add: get_connections_def)
qed

lemma enqueue_neighbors_measure:
  "finite U \<Longrightarrow> set ns \<subseteq> U \<Longrightarrow>
   2 * card (U - snd (enqueue_neighbors path ns queue visited))
     + length (fst (enqueue_neighbors path ns queue visited))
   \<le> 2 * card (U - visited) + length queue"
proof (induction ns arbitrary: queue visited)
  case Nil
  then show ?case by simp
next
  case (Cons n ns)
  show ?case
  proof (cases "n \<in> visited")
    case True
    then show ?thesis using Cons by simp
  next
    case False
    have in_rest: "n \<in> U - visited" using Cons.prems False by simp
    have fin_rest: "finite (U - visited)" using Cons.prems(1) by simp
    have "U - insert n visited = (U - visited) - {n}" by auto
    then have "card (U - insert n visited) < card (U - visited)"
      using card_Diff1_less [OF fin_rest in_rest] by simp
    moreover have
      "2 * card (U - snd (enqueue_neighbors path ns (queue @ [(n, path @ [n])]) (insert n visited)))
         + length (fst (enqueue_neighbors path ns (queue @ [(n, path @ [n])]) (insert n visited)))
       \<le> 2 * card (U - insert n visited) + length (queue @ [(n, path @ [n])])"
      using Cons.IH [of "queue @ [(n, path @ [n])]" "insert n visited"] Cons.prems by simp
    ultimately show ?thesis using False by simp
  qed
qed

text \<open>
  One iteration of the \<open>while\<close> loop takes a pair off the queue and appends one pair for
  every title it adds to \<open>visited\<close>, so this number, bounded by the size of the graph,
  goes down with every iteration.
\<close>

lemma bfs_iteration_measure:
  "2 * card (link_targets g
       - snd (enqueue_neighbors path (get_connections g current_page) queue
                (insert current_page visited)))
     + length (fst (enqueue_neighbors path (get_connections g current_page) queue
                (insert current_page visited)))
   < 2 * card (link_targets g - visited) + length ((current_page, path) # queue)"
proof -
  have "2 * card (link_targets g
            - snd (enqueue_neighbors path (get_connections g current_page) queue
                     (insert current_page visited)))
        + length (fst (enqueue_neighbors path (get_connections g current_page) queue
                     (insert current_page visited)))
        \<le> 2 * card (link_targets g - insert current_page visited) + length queue"
    by (rule enqueue_neighbors_measure [OF finite_link_targets get_connections_targets])
  moreover have "card (link_targets g - insert current_page visited)
                   \<le> card (link_targets g - visited)"
    by (rule card_mono) (auto simp: finite_link_targets)
  ultimately show ?thesis by simp
qed

text \<open>
  The \<open>while queue:\<close> loop. The queue holds pairs of a page and the path that led to
  it; \<open>popleft\<close> takes the head. The result is \<open>PyPath path\<close> for \<open>return path\<close>
  and \<open>PyNone\<close> for the \<open>return None\<close> that follows the loop when the queue has run
  empty.
\<close>

function bfs_loop ::
  "graph \<Rightarrow> title \<Rightarrow> (title \<times> title list) list \<Rightarrow> title set \<Rightarrow> path_result" where
  "bfs_loop g end_p [] visited = PyNone"
| "bfs_loop g end_p ((current_page, path) # queue) visited =
     (if current_page = end_p then PyPath path
      else bfs_loop g end_p
             (fst (enqueue_neighbors path (get_connections g current_page) queue
                     (insert current_page visited)))
             (snd (enqueue_neighbors path (get_connections g current_page) queue
                     (insert current_page visited))))"
  by pat_completeness auto
termination
proof (relation "measure (\<lambda>(g, e, queue, visited).
                   2 * card (link_targets g - visited) + length queue)", goal_cases)
  case 1
  show ?case by simp
next
  case (2 g end_p current_page path queue visited)
  show ?case
    using bfs_iteration_measure [of g path current_page queue visited]
    by (simp add: case_prod_beta)
qed

declare bfs_loop.simps [simp del]

text \<open>\<open>find_shortest_path\<close>: the object after the call and the value returned.\<close>

definition find_shortest_path :: "graph \<Rightarrow> title \<Rightarrow> title \<Rightarrow> graph \<times> path_result" where
  "find_shortest_path g start_p end_p =
     (let g' = g\<lparr>start_page := Some start_p, end_page := Some end_p\<rparr> in
      if \<not> contains (adj_list g') start_p \<or> \<not> contains (adj_list g') end_p then (g', PyNone)
      else if start_p = end_p then (g', PyTagged 0 [start_p])
      else (g', bfs_loop g' end_p [(start_p, [start_p])] {}))"

subsection \<open>Paths of the graph\<close>

text \<open>
  A path is a non-empty sequence of titles in which every title is among the out-links of
  the one before it; an edge is read as the search reads it, through \<open>get_connections\<close>.
\<close>

fun is_path :: "graph \<Rightarrow> title list \<Rightarrow> bool" where
  "is_path g [] = False"
| "is_path g [v] = True"
| "is_path g (u # v # rest) = (v \<in> set (get_connections g u) \<and> is_path g (v # rest))"

definition path_from_to :: "graph \<Rightarrow> title \<Rightarrow> title \<Rightarrow> title list \<Rightarrow> bool" where
  "path_from_to g s e p = (is_path g p \<and> hd p = s \<and> last p = e)"

text \<open>
  The neighbours that the \<open>for\<close> loop enqueues, in order: the first occurrence of every
  neighbour that is not yet in \<open>visited\<close>.
\<close>

fun fresh :: "title list \<Rightarrow> title set \<Rightarrow> title list" where
  "fresh [] visited = []"
| "fresh (n # ns) visited =
     (if n \<notin> visited then n # fresh ns (insert n visited) else fresh ns visited)"

lemma enqueue_neighbors_eq:
  "enqueue_neighbors path ns queue visited =
     (queue @ map (\<lambda>n. (n, path @ [n])) (fresh ns visited), visited \<union> set ns)"
  by (induction ns arbitrary: queue visited) auto

lemma set_fresh: "set (fresh ns visited) = set ns - visited"
  by (induction ns arbitrary: visited) auto

lemma is_path_nonempty: "is_path g p \<Longrightarrow> p \<noteq> []"
  by (cases p) simp_all

lemma is_path_snoc:
  "is_path g p \<Longrightarrow> n \<in> set (get_connections g (last p)) \<Longrightarrow> is_path g (p @ [n])"
proof (induction g p rule: is_path.induct)
  case (1 g)
  then show ?case by simp
next
  case (2 g v)
  then show ?case by simp
next
  case (3 g u v rest)
  then show ?case by simp
qed

lemma is_path_butlast:
  "is_path g p \<Longrightarrow> 2 \<le> length p \<Longrightarrow>
   is_path g (butlast p) \<and> last p \<in> set (get_connections g (last (butlast p)))"
proof (induction g p rule: is_path.induct)
  case (1 g)
  then show ?case by simp
next
  case (2 g v)
  then show ?case by simp
next
  case (3 g u v rest)
  show ?case
  proof (cases rest)
    case Nil
    then show ?thesis using 3 by simp
  next
    case (Cons w ws)
    then show ?thesis using 3 by simp
  qed
qed

lemma is_path_closed:
  "is_path g p \<Longrightarrow> hd p \<in> S \<Longrightarrow>
   (\<And>u. u \<in> S \<Longrightarrow> set (get_connections g u) \<subseteq> S) \<Longrightarrow> last p \<in> S"
proof (induction g p rule: is_path.induct)
  case (1 g)
  then show ?case by simp
next
  case (2 g v)
  then show ?case by simp
next
  case (3 g u v rest)
  have "v \<in> S" using 3 by auto
  then show ?case using 3 by simp
qed

subsection \<open>Correctness of the search\<close>

definition shortest_to :: "graph \<Rightarrow> title \<Rightarrow> title \<Rightarrow> title list \<Rightarrow> bool" where
  "shortest_to g s v p =
     (path_from_to g s v p \<and> (\<forall>p'. path_from_to g s v p' \<longrightarrow> length p \<le> length p'))"

text \<open>
  The invariant of the \<open>while\<close> loop: every queued path is a shortest path to its page;
  the queue is ordered by path length and its lengths differ by at most one; every page
  no farther from the start than the head of the queue is visited or queued; the out-links
  of a page that has left the queue are visited or queued; the end page has not left the
  queue; and every queued page is in \<open>visited\<close>, but for the start page before the first
  iteration.
\<close>

definition bfs_inv ::
  "graph \<Rightarrow> title \<Rightarrow> title \<Rightarrow> (title \<times> title list) list \<Rightarrow> title set \<Rightarrow> bool" where
  "bfs_inv g s e queue visited =
     ((\<forall>v p. (v, p) \<in> set queue \<longrightarrow> shortest_to g s v p)
      \<and> sorted (map (\<lambda>x. length (snd x)) queue)
      \<and> (\<forall>x \<in> set queue. length (snd x) \<le> Suc (length (snd (hd queue))))
      \<and> (\<forall>x p'. queue \<noteq> [] \<and> path_from_to g s x p' \<and> length p' \<le> length (snd (hd queue))
            \<longrightarrow> x \<in> visited \<union> fst ` set queue)
      \<and> (\<forall>u \<in> visited - fst ` set queue.
            set (get_connections g u) \<subseteq> visited \<union> fst ` set queue)
      \<and> e \<notin> visited - fst ` set queue
      \<and> s \<in> visited \<union> fst ` set queue
      \<and> (fst ` set queue \<subseteq> visited \<or> (visited = {} \<and> queue = [(s, [s])])))"

lemma bfs_inv_init: "bfs_inv g s e [(s, [s])] {}"
proof -
  have "shortest_to g s s [s]"
    unfolding shortest_to_def path_from_to_def
  proof (intro conjI allI impI)
    fix p' assume "is_path g p' \<and> hd p' = s \<and> last p' = s"
    then have "p' \<noteq> []" using is_path_nonempty by blast
    then show "length [s] \<le> length p'" by (cases p') simp_all
  qed simp_all
  moreover have "x = s" if "path_from_to g s x p'" "length p' \<le> 1" for x p'
  proof -
    from that obtain a where "p' = [a]"
      by (cases p') (auto simp: path_from_to_def)
    then show ?thesis using that by (auto simp: path_from_to_def)
  qed
  ultimately show ?thesis
    by (auto simp: bfs_inv_def)
qed

lemma bfs_inv_empty:
  assumes "bfs_inv g s e [] visited"
  shows "\<not> path_from_to g s e p"
proof
  assume p: "path_from_to g s e p"
  have closed: "\<And>u. u \<in> visited \<Longrightarrow> set (get_connections g u) \<subseteq> visited"
    using assms by (simp add: bfs_inv_def)
  have "s \<in> visited" using assms by (simp add: bfs_inv_def)
  then have "last p \<in> visited"
    using p closed is_path_closed [of g p visited] by (simp add: path_from_to_def)
  moreover have "e \<notin> visited" using assms by (simp add: bfs_inv_def)
  ultimately show False using p by (simp add: path_from_to_def)
qed

lemma sorted_map_const: "sorted (map (\<lambda>_. k::nat) xs)"
  by (induction xs) auto

lemma sorted_hd_min:
  "sorted (map f xs) \<Longrightarrow> y \<in> set xs \<Longrightarrow> (f (hd xs) :: nat) \<le> f y"
  by (cases xs) auto

lemma bfs_inv_step:
  assumes inv: "bfs_inv g s e ((c, path) # rest) visited" and ne: "c \<noteq> e"
  shows "bfs_inv g s e
           (rest @ map (\<lambda>n. (n, path @ [n])) (fresh (get_connections g c) (insert c visited)))
           (insert c visited \<union> set (get_connections g c))"
proof -
  define N where "N = set (get_connections g c)"
  define F where "F = fresh (get_connections g c) (insert c visited)"
  define q' where "q' = rest @ map (\<lambda>n. (n, path @ [n])) F"
  define vis' where "vis' = insert c visited \<union> N"
  define L where "L = length path"
  have setF: "set F = N - insert c visited"
    by (simp add: F_def N_def set_fresh)
  have nodes_q': "fst ` set q' = fst ` set rest \<union> set F"
    by (simp add: q'_def image_Un image_image)
  have r1: "\<forall>v p. (v, p) \<in> set ((c, path) # rest) \<longrightarrow> shortest_to g s v p"
    using inv unfolding bfs_inv_def by (elim conjE)
  have h1: "shortest_to g s v p" if "(v, p) \<in> set ((c, path) # rest)" for v p
    using r1 that by blast
  have h2: "sorted (map (\<lambda>x. length (snd x)) ((c, path) # rest))"
    using inv unfolding bfs_inv_def by (elim conjE)
  have r3: "\<forall>x \<in> set ((c, path) # rest).
              length (snd x) \<le> Suc (length (snd (hd ((c, path) # rest))))"
    using inv unfolding bfs_inv_def by (elim conjE)
  have h3: "\<forall>x \<in> set rest. length (snd x) \<le> Suc L"
    using r3 by (simp add: L_def)
  have h4: "x \<in> visited \<union> insert c (fst ` set rest)"
    if "path_from_to g s x p'" "length p' \<le> L" for x p'
  proof -
    have "\<forall>x p'. (c, path) # rest \<noteq> [] \<and> path_from_to g s x p'
              \<and> length p' \<le> length (snd (hd ((c, path) # rest)))
            \<longrightarrow> x \<in> visited \<union> fst ` set ((c, path) # rest)"
      using inv unfolding bfs_inv_def by (elim conjE)
    then have "x \<in> visited \<union> fst ` set ((c, path) # rest)"
      using that by (simp only: L_def list.sel snd_conv) blast
    then show ?thesis by simp
  qed
  have h5: "set (get_connections g u) \<subseteq> visited \<union> insert c (fst ` set rest)"
    if "u \<in> visited" "u \<noteq> c" "u \<notin> fst ` set rest" for u
  proof -
    have "\<forall>u \<in> visited - fst ` set ((c, path) # rest).
            set (get_connections g u) \<subseteq> visited \<union> fst ` set ((c, path) # rest)"
      using inv unfolding bfs_inv_def by (elim conjE)
    then show ?thesis using that by simp
  qed
  have h6: "e \<notin> visited - fst ` set ((c, path) # rest)"
    using inv unfolding bfs_inv_def by (elim conjE)
  have h7: "s \<in> visited \<union> fst ` set ((c, path) # rest)"
    using inv unfolding bfs_inv_def by (elim conjE)
  have h8: "fst ` set ((c, path) # rest) \<subseteq> visited
              \<or> (visited = {} \<and> (c, path) # rest = [(s, [s])])"
    using inv unfolding bfs_inv_def by (elim conjE)
  have rest_vis: "fst ` set rest \<subseteq> visited"
    using h8 by auto
  have cpath: "shortest_to g s c path" by (rule h1) simp
  then have path_ok: "is_path g path" "hd path = s" "last path = c"
    by (simp_all add: shortest_to_def path_from_to_def)
  have path_ne: "path \<noteq> []" using path_ok(1) is_path_nonempty by blast
  then have L_pos: "1 \<le> L" by (cases path) (simp_all add: L_def)
  have lb_rest: "\<forall>x \<in> set rest. L \<le> length (snd x)"
    using h2 by (simp add: L_def)
  have sorted_rest: "sorted (map (\<lambda>x. length (snd x)) rest)"
    using h2 by simp
  have new_len: "\<forall>x \<in> set (map (\<lambda>n. (n, path @ [n])) F). length (snd x) = Suc L"
    by (auto simp: L_def)
  have lb: "\<forall>x \<in> set q'. L \<le> length (snd x)"
    using lb_rest new_len unfolding q'_def by fastforce
  have ub: "\<forall>x \<in> set q'. length (snd x) \<le> Suc L"
    using h3 new_len unfolding q'_def by fastforce

  have A: "\<forall>v p. (v, p) \<in> set q' \<longrightarrow> shortest_to g s v p"
  proof (intro allI impI)
    fix v p assume vp: "(v, p) \<in> set q'"
    show "shortest_to g s v p"
    proof (cases "(v, p) \<in> set rest")
      case True
      then show ?thesis using h1 by simp
    next
      case False
      then have vF: "v \<in> set F" and p_eq: "p = path @ [v]"
        using vp by (auto simp: q'_def)
      have vN: "v \<in> set (get_connections g (last path))"
        using vF setF path_ok(3) by (simp add: N_def)
      have "is_path g (path @ [v])" using path_ok(1) vN by (rule is_path_snoc)
      moreover have "hd (path @ [v]) = s" using path_ne path_ok(2) by simp
      ultimately have pft: "path_from_to g s v p"
        by (simp add: path_from_to_def p_eq)
      have "length p \<le> length p'" if p': "path_from_to g s v p'" for p'
      proof (rule ccontr)
        assume "\<not> length p \<le> length p'"
        then have "length p' \<le> L" by (simp add: p_eq L_def)
        then have "v \<in> visited \<union> insert c (fst ` set rest)" using p' h4 by blast
        moreover have "v \<notin> insert c visited" using vF setF by simp
        ultimately show False using rest_vis by auto
      qed
      then show ?thesis using pft by (simp add: shortest_to_def)
    qed
  qed

  have B: "sorted (map (\<lambda>x. length (snd x)) q')"
  proof -
    have "map (\<lambda>x. length (snd x)) (map (\<lambda>n. (n, path @ [n])) F) = map (\<lambda>_. Suc L) F"
      by (simp add: L_def)
    then have "sorted (map (\<lambda>x. length (snd x)) (map (\<lambda>n. (n, path @ [n])) F))"
      by (simp only: sorted_map_const)
    moreover have "\<forall>x \<in> set rest. \<forall>y \<in> set (map (\<lambda>n. (n, path @ [n])) F).
                     length (snd x) \<le> length (snd y)"
      using h3 new_len by simp
    ultimately show ?thesis
      using sorted_rest unfolding q'_def by (simp add: sorted_append)
  qed

  have hd_in: "hd q' \<in> set q'" if "q' \<noteq> []" using that by simp

  have C: "\<forall>x \<in> set q'. length (snd x) \<le> Suc (length (snd (hd q')))"
  proof
    fix x assume x: "x \<in> set q'"
    then have "q' \<noteq> []" by auto
    then have "L \<le> length (snd (hd q'))" using lb hd_in by blast
    moreover have "length (snd x) \<le> Suc L" using ub x by blast
    ultimately show "length (snd x) \<le> Suc (length (snd (hd q')))" by simp
  qed

  have D: "\<forall>x p'. q' \<noteq> [] \<and> path_from_to g s x p' \<and> length p' \<le> length (snd (hd q'))
             \<longrightarrow> x \<in> vis' \<union> fst ` set q'"
  proof (intro allI impI, elim conjE)
    fix x p'
    assume ne': "q' \<noteq> []" and pft: "path_from_to g s x p'"
      and le: "length p' \<le> length (snd (hd q'))"
    show "x \<in> vis' \<union> fst ` set q'"
    proof (cases "length p' \<le> L")
      case True
      then have "x \<in> visited \<union> insert c (fst ` set rest)" using pft h4 by blast
      then show ?thesis by (auto simp: vis'_def nodes_q')
    next
      case False
      have hd_ub: "length (snd (hd q')) \<le> Suc L" using ub hd_in [OF ne'] by blast
      then have len_p': "length p' = Suc L" and hd_len: "length (snd (hd q')) = Suc L"
        using False le by simp_all
      have rest_far: "Suc L \<le> length (snd y)" if "y \<in> set rest" for y
      proof -
        have "y \<in> set q'" using that by (simp add: q'_def)
        then have "length (snd (hd q')) \<le> length (snd y)"
          using sorted_hd_min [OF B] by blast
        then show ?thesis using hd_len by simp
      qed
      have two: "2 \<le> length p'" using len_p' L_pos by simp
      have p'_path: "is_path g p'" "hd p' = s" "last p' = x"
        using pft by (simp_all add: path_from_to_def)
      define y where "y = last (butlast p')"
      have bl: "is_path g (butlast p')" and x_nb: "x \<in> set (get_connections g y)"
        using is_path_butlast [OF p'_path(1) two] p'_path(3) by (simp_all add: y_def)
      have "hd (butlast p') = s"
        using two p'_path(2) by (cases p') (auto split: if_splits)
      then have y_pft: "path_from_to g s y (butlast p')"
        using bl by (simp add: path_from_to_def y_def)
      have bl_len: "length (butlast p') = L" using len_p' by simp
      then have y_seen: "y \<in> visited \<union> insert c (fst ` set rest)"
        using y_pft h4 by simp
      show ?thesis
      proof (cases "y = c")
        case True
        then have "x \<in> N" using x_nb by (simp add: N_def)
        then show ?thesis by (simp add: vis'_def)
      next
        case y_ne: False
        show ?thesis
        proof (cases "y \<in> fst ` set rest")
          case True
          then obtain py where py: "(y, py) \<in> set rest" by auto
          then have "shortest_to g s y py" using h1 by simp
          then have "\<forall>q. path_from_to g s y q \<longrightarrow> length py \<le> length q"
            unfolding shortest_to_def by (elim conjE)
          then have "length py \<le> length (butlast p')"
            using y_pft by blast
          moreover have "Suc L \<le> length py" using rest_far [OF py] by simp
          ultimately show ?thesis using bl_len by simp
        next
          case False
          then have "y \<in> visited" using y_seen y_ne by auto
          then have "set (get_connections g y) \<subseteq> visited \<union> insert c (fst ` set rest)"
            using h5 y_ne False by blast
          then have "x \<in> visited \<union> insert c (fst ` set rest)" using x_nb by blast
          then show ?thesis by (auto simp: vis'_def nodes_q')
        qed
      qed
    qed
  qed

  have E: "\<forall>u \<in> vis' - fst ` set q'. set (get_connections g u) \<subseteq> vis' \<union> fst ` set q'"
  proof
    fix u assume u: "u \<in> vis' - fst ` set q'"
    show "set (get_connections g u) \<subseteq> vis' \<union> fst ` set q'"
    proof (cases "u = c")
      case True
      then show ?thesis by (auto simp: vis'_def N_def)
    next
      case False
      have "u \<in> visited"
      proof (rule ccontr)
        assume "u \<notin> visited"
        then have "u \<in> set F" using u False setF by (auto simp: vis'_def)
        then show False using u by (simp add: nodes_q')
      qed
      moreover have "u \<notin> fst ` set rest" using u by (simp add: nodes_q')
      ultimately have "set (get_connections g u) \<subseteq> visited \<union> insert c (fst ` set rest)"
        using h5 False by blast
      then show ?thesis by (auto simp: vis'_def nodes_q')
    qed
  qed

  have Fp: "e \<notin> vis' - fst ` set q'"
  proof
    assume e: "e \<in> vis' - fst ` set q'"
    have "e \<in> visited"
    proof (rule ccontr)
      assume "e \<notin> visited"
      then have "e \<in> set F" using e ne setF by (auto simp: vis'_def)
      then show False using e by (simp add: nodes_q')
    qed
    moreover have "e \<notin> fst ` set rest" using e by (simp add: nodes_q')
    ultimately show False using h6 ne by auto
  qed

  have G: "s \<in> vis' \<union> fst ` set q'"
    using h7 by (auto simp: vis'_def nodes_q')

  have "fst ` set q' \<subseteq> vis'"
    using rest_vis setF by (auto simp: vis'_def nodes_q')
  then have H: "fst ` set q' \<subseteq> vis' \<or> (vis' = {} \<and> q' = [(s, [s])])"
    by (rule disjI1)

  have "bfs_inv g s e q' vis'"
    unfolding bfs_inv_def by (intro conjI A B C D E Fp G H)
  then show ?thesis
    by (simp add: q'_def vis'_def F_def N_def)
qed

text \<open>
  What the loop returns from a state that satisfies the invariant: a shortest path when
  it returns one, and \<open>None\<close> only when the graph has no path to the end page.
\<close>

lemma bfs_loop_result:
  "bfs_inv g s e queue visited \<Longrightarrow>
   (case bfs_loop g e queue visited of
      PyNone \<Rightarrow> (\<forall>p. \<not> path_from_to g s e p)
    | PyTagged n p \<Rightarrow> False
    | PyPath p \<Rightarrow> shortest_to g s e p)"
proof (induction g e queue visited rule: bfs_loop.induct)
  case (1 g end_p visited)
  then show ?case using bfs_inv_empty by (simp add: bfs_loop.simps)
next
  case (2 g end_p current_page path queue visited)
  show ?case
  proof (cases "current_page = end_p")
    case True
    have "\<forall>v p. (v, p) \<in> set ((current_page, path) # queue) \<longrightarrow> shortest_to g s v p"
      using "2.prems" unfolding bfs_inv_def by (elim conjE)
    then have "shortest_to g s end_p path" using True by simp
    then show ?thesis using True by (simp add: bfs_loop.simps)
  next
    case False
    have "bfs_inv g s end_p
            (fst (enqueue_neighbors path (get_connections g current_page) queue
                    (insert current_page visited)))
            (snd (enqueue_neighbors path (get_connections g current_page) queue
                    (insert current_page visited)))"
      using bfs_inv_step [OF "2.prems" False] by (simp add: enqueue_neighbors_eq)
    then show ?thesis using "2.IH" [OF False] False by (simp add: bfs_loop.simps)
  qed
qed

text \<open>The session pointers play no part in what a path is.\<close>

lemma is_path_cong: "adj_list g = adj_list g' \<Longrightarrow> is_path g p = is_path g' p"
  by (induction g p rule: is_path.induct) (simp_all add: get_connections_def)

lemma find_shortest_path_general:
  assumes "contains (adj_list g) start_p" "contains (adj_list g) end_p" "start_p \<noteq> end_p"
  shows "case snd (find_shortest_path g start_p end_p) of
           PyNone \<Rightarrow> (\<forall>p. \<not> (is_path g p \<and> hd p = start_p \<and> last p = end_p))
         | PyTagged n p \<Rightarrow> False
         | PyPath p \<Rightarrow> is_path g p \<and> hd p = start_p \<and> last p = end_p
             \<and> (\<forall>p'. is_path g p' \<and> hd p' = start_p \<and> last p' = end_p
                    \<longrightarrow> length p \<le> length p')"
proof -
  define g' where "g' = g\<lparr>start_page := Some start_p, end_page := Some end_p\<rparr>"
  have adj: "adj_list g' = adj_list g" by (simp add: g'_def)
  have res: "snd (find_shortest_path g start_p end_p) = bfs_loop g' end_p [(start_p, [start_p])] {}"
    using assms by (simp add: find_shortest_path_def g'_def Let_def)
  have pft: "path_from_to g' start_p end_p p = (is_path g p \<and> hd p = start_p \<and> last p = end_p)"
    for p
    using is_path_cong [OF adj, of p] by (simp add: path_from_to_def)
  have "case bfs_loop g' end_p [(start_p, [start_p])] {} of
          PyNone \<Rightarrow> (\<forall>p. \<not> path_from_to g' start_p end_p p)
        | PyTagged n p \<Rightarrow> False
        | PyPath p \<Rightarrow> shortest_to g' start_p end_p p"
    by (rule bfs_loop_result [OF bfs_inv_init])
  then show ?thesis
    unfolding res shortest_to_def pft by (simp split: path_result.splits)
qed

subsection \<open>An example graph\<close>

text \<open>
  Six pages: \<open>A\<close> reaches \<open>E\<close> in two steps through \<open>C\<close> and in three through \<open>B\<close> and
  \<open>D\<close>; nothing links to \<open>F\<close>.
\<close>

definition example_links :: adjacency where
  "example_links = DAList.Alist
     [(''A'', [''B'', ''C'']), (''B'', [''D'']), (''C'', [''E'']), (''D'', [''E'']),
      (''E'', []), (''F'', [''A''])]"

definition example_graph :: graph where
  "example_graph =
     \<lparr>cache_file = ''wikigraph_cache.json'', adj_list = example_links,
      start_page = None, end_page = None\<rparr>"

lemma impl_of_example_links:
  "DAList.impl_of example_links =
     [(''A'', [''B'', ''C'']), (''B'', [''D'']), (''C'', [''E'']), (''D'', [''E'']),
      (''E'', []), (''F'', [''A''])]"
  by (simp add: example_links_def impl_of_Alist)

lemma lookup_example_links:
  "DAList.lookup example_links t =
     map_of [(''A'', [''B'', ''C'']), (''B'', [''D'']), (''C'', [''E'']), (''D'', [''E'']),
      (''E'', []), (''F'', [''A''])] t"
  by (simp add: DAList.lookup.rep_eq impl_of_example_links)

lemma example_path:
  "snd (find_shortest_path example_graph ''A'' ''E'') = PyPath [''A'', ''C'', ''E'']"
  by (simp add: find_shortest_path_def example_graph_def contains_def lookup_example_links
      bfs_loop.simps get_connections_def)

lemma example_no_path:
  "snd (find_shortest_path example_graph ''A'' ''F'') = PyNone"
  by (simp add: find_shortest_path_def example_graph_def contains_def lookup_example_links
      bfs_loop.simps get_connections_def)

lemma contains_example_links:
  "contains (adj_list example_graph) t = (t \<in> {''A'', ''B'', ''C'', ''D'', ''E'', ''F''})"
  by (simp add: contains_def example_graph_def lookup_example_links)

lemma get_connections_example:
  "get_connections example_graph t =
     (case map_of [(''A'', [''B'', ''C'']), (''B'', [''D'']), (''C'', [''E'']),
                   (''D'', [''E'']), (''E'', []), (''F'', [''A''])] t of
        None \<Rightarrow> [] | Some links \<Rightarrow> links)"
  by (simp add: get_connections_def example_graph_def lookup_example_links)

subsection \<open>The claims about the shortest path\<close>

text \<open>
  C1. For two different titles that are both in the graph, a path returned by
  \<open>find_shortest_path\<close> begins with the start title, ends with the end title, links every
  title to the next by a directed edge of the graph, and has the least number of steps
  (its length minus one) among all directed paths from the start to the end.
\<close>

theorem find_shortest_path_is_shortest:
  assumes "contains (adj_list g) start_p" and "contains (adj_list g) end_p"
    and "start_p \<noteq> end_p"
    and "snd (find_shortest_path g start_p end_p) = PyPath path"
  shows "hd path = start_p \<and> last path = end_p \<and> is_path g path
         \<and> (\<forall>p'. is_path g p' \<and> hd p' = start_p \<and> last p' = end_p
                \<longrightarrow> length path - 1 \<le> length p' - 1)"
proof -
  have "is_path g path \<and> hd path = start_p \<and> last path = end_p
          \<and> (\<forall>p'. is_path g p' \<and> hd p' = start_p \<and> last p' = end_p
                 \<longrightarrow> length path \<le> length p')"
    using find_shortest_path_general [OF assms(1-3)] assms(4) by simp
  then show ?thesis by (simp add: diff_le_mono)
qed

text \<open>
  In the example graph the search from \<open>A\<close> to \<open>E\<close> returns the two-step path through
  \<open>C\<close>, not the three-step path through \<open>B\<close> and \<open>D\<close>.
\<close>

theorem find_shortest_path_is_shortest_witness:
  "contains (adj_list example_graph) ''A'' \<and> contains (adj_list example_graph) ''E''
   \<and> ''A'' \<noteq> ''E''
   \<and> snd (find_shortest_path example_graph ''A'' ''E'') = PyPath [''A'', ''C'', ''E'']
   \<and> hd [''A'', ''C'', ''E''] = ''A'' \<and> last [''A'', ''C'', ''E''] = ''E''
   \<and> is_path example_graph [''A'', ''C'', ''E'']
   \<and> is_path example_graph [''A'', ''B'', ''D'', ''E'']
   \<and> length [''A'', ''C'', ''E''] - 1 \<le> length [''A'', ''B'', ''D'', ''E''] - 1"
  using find_shortest_path_is_shortest
          [of example_graph "''A''" "''E''" "[''A'', ''C'', ''E'']"]
  by (simp add: contains_example_links example_path get_connections_example)

text \<open>
  C6. \<open>find_shortest_path\<close> returns \<open>None\<close> exactly when the start or the end title is
  absent from the graph or the graph has no directed path from the start to the end. The
  absence check comes before the check \<open>start_page == end_page\<close>, so an absent title
  queried against itself gives \<open>None\<close> as well. A title of the graph queried against
  itself does not give \<open>None\<close>: the title alone is a path from it to itself.
\<close>

theorem find_shortest_path_not_found:
  "(snd (find_shortest_path g start_p end_p) = PyNone)
     = (\<not> contains (adj_list g) start_p \<or> \<not> contains (adj_list g) end_p
        \<or> (\<forall>p. \<not> (is_path g p \<and> hd p = start_p \<and> last p = end_p)))"
proof (cases "contains (adj_list g) start_p \<and> contains (adj_list g) end_p")
  case False
  then show ?thesis by (auto simp: find_shortest_path_def Let_def)
next
  case present: True
  show ?thesis
  proof (cases "start_p = end_p")
    case True
    have "is_path g [start_p] \<and> hd [start_p] = start_p \<and> last [start_p] = end_p"
      using True by simp
    then have "\<not> (\<forall>p. \<not> (is_path g p \<and> hd p = start_p \<and> last p = end_p))" by blast
    moreover have "snd (find_shortest_path g start_p end_p) = PyTagged 0 [start_p]"
      using present True by (simp add: find_shortest_path_def Let_def)
    ultimately show ?thesis using present by simp
  next
    case False
    have gen: "case snd (find_shortest_path g start_p end_p) of
           PyNone \<Rightarrow> (\<forall>p. \<not> (is_path g p \<and> hd p = start_p \<and> last p = end_p))
         | PyTagged n p \<Rightarrow> False
         | PyPath p \<Rightarrow> is_path g p \<and> hd p = start_p \<and> last p = end_p
             \<and> (\<forall>p'. is_path g p' \<and> hd p' = start_p \<and> last p' = end_p
                    \<longrightarrow> length p \<le> length p')"
      using present False by (intro find_shortest_path_general) simp_all
    show ?thesis
    proof (cases "snd (find_shortest_path g start_p end_p)")
      case PyNone
      then show ?thesis using gen by simp
    next
      case (PyTagged n p)
      then show ?thesis using gen by simp
    next
      case (PyPath p)
      then have "is_path g p \<and> hd p = start_p \<and> last p = end_p" using gen by simp
      then have "\<not> (\<forall>p. \<not> (is_path g p \<and> hd p = start_p \<and> last p = end_p))" by blast
      then show ?thesis using PyPath present by simp
    qed
  qed
qed

text \<open>
  In the example graph \<open>F\<close> cannot be reached from \<open>A\<close>, the absent title \<open>Z\<close> queried
  against itself gives \<open>None\<close>, and the reachable pair \<open>A\<close>, \<open>E\<close> does not.
\<close>

theorem find_shortest_path_not_found_witness:
  "snd (find_shortest_path example_graph ''A'' ''F'') = PyNone
   \<and> contains (adj_list example_graph) ''A'' \<and> contains (adj_list example_graph) ''F''
   \<and> (\<forall>p. \<not> (is_path example_graph p \<and> hd p = ''A'' \<and> last p = ''F''))
   \<and> \<not> contains (adj_list example_graph) ''Z''
   \<and> snd (find_shortest_path example_graph ''Z'' ''Z'') = PyNone
   \<and> snd (find_shortest_path example_graph ''A'' ''E'') \<noteq> PyNone
   \<and> is_path example_graph [''A'', ''C'', ''E'']"
  using find_shortest_path_not_found [of example_graph "''A''" "''F''"]
    find_shortest_path_not_found [of example_graph "''Z''" "''Z''"]
  by (simp add: contains_example_links example_no_path example_path get_connections_example)

subsection \<open>Printing the shortest path\<close>

text \<open>The exceptions that the modelled code can raise.\<close>

datatype py_error = TypeError | StopIteration | FileNotFoundError

text \<open>
  What \<open>print_shortest_path\<close> prints: the message that no path was found, or the number
  of steps and the titles joined by arrows.
\<close>

datatype path_report = NoPathFound | ShortestPath int "title list"

text \<open>
  \<open>print_shortest_path\<close>. \<open>if path:\<close> holds for a non-empty list. For the two-element
  list \<open>[0, [start_page]]\<close> it holds as well, and \<open>" -> ".join(path)\<close> then raises
  \<open>TypeError\<close>, as the first item is an integer and not a string.
\<close>

definition print_shortest_path ::
  "graph \<Rightarrow> title \<Rightarrow> title \<Rightarrow> graph \<times> (py_error + path_report)" where
  "print_shortest_path g start_p end_p =
     (case find_shortest_path g start_p end_p of
        (g', PyNone) \<Rightarrow> (g', Inr NoPathFound)
      | (g', PyTagged n p) \<Rightarrow> (g', Inl TypeError)
      | (g', PyPath path) \<Rightarrow>
          (if path \<noteq> [] then (g', Inr (ShortestPath (int (length path) - 1) path))
           else (g', Inr NoPathFound)))"

text \<open>
  C2. For a title \<open>s\<close> of the graph \<open>find_shortest_path(s, s)\<close> should return the
  zero-step path \<open>[s]\<close>. It returns the two-element list \<open>[0, [s]]\<close>, which is not a
  list of titles, and \<open>print_shortest_path\<close> raises \<open>TypeError\<close> on it.
\<close>

theorem find_shortest_path_same_page:
  "contains (adj_list g) s \<Longrightarrow>
   snd (find_shortest_path g s s) = PyTagged 0 [s]
   \<and> snd (print_shortest_path g s s) = Inl TypeError"
  by (simp add: print_shortest_path_def find_shortest_path_def Let_def)

text \<open>
  In the example graph the query from \<open>A\<close> to \<open>A\<close> returns \<open>[0, [A]]\<close>, which is not
  the path \<open>[A]\<close>.
\<close>

theorem find_shortest_path_same_page_witness:
  "contains (adj_list example_graph) ''A''
   \<and> snd (find_shortest_path example_graph ''A'' ''A'') = PyTagged 0 [''A'']
   \<and> snd (find_shortest_path example_graph ''A'' ''A'') \<noteq> PyPath [''A'']
   \<and> snd (print_shortest_path example_graph ''A'' ''A'') = Inl TypeError"
  using find_shortest_path_same_page [of example_graph "''A''"]
  by (simp add: contains_example_links)

subsection \<open>Degrees\<close>

text \<open>\<open>get_out_degree\<close>: \<open>len(self.get_connections(page_title))\<close>\<close>

definition get_out_degree :: "graph \<Rightarrow> title \<Rightarrow> nat" where
  "get_out_degree g page_title = length (get_connections g page_title)"

text \<open>
  The loop of \<open>get_in_degree\<close> over \<open>self.adj_list.items()\<close>, with the counter
  \<open>in_degree\<close> as an accumulator.
\<close>

fun count_in_links :: "title \<Rightarrow> (title \<times> title list) list \<Rightarrow> nat \<Rightarrow> nat" where
  "count_in_links page_title [] in_degree = in_degree"
| "count_in_links page_title ((page_node, neighbors) # rest) in_degree =
     count_in_links page_title rest
       (if page_title \<in> set neighbors then in_degree + 1 else in_degree)"

definition get_in_degree :: "graph \<Rightarrow> title \<Rightarrow> nat" where
  "get_in_degree g page_title = count_in_links page_title (DAList.impl_of (adj_list g)) 0"

text \<open>What \<open>print_degrees\<close> prints: the title, its out-degree and its in-degree.\<close>

record degree_report =
  page :: title
  out_degree :: nat
  in_degree :: nat

definition print_degrees :: "graph \<Rightarrow> title \<Rightarrow> degree_report" where
  "print_degrees g page_title =
     \<lparr>page = page_title, out_degree = get_out_degree g page_title,
      in_degree = get_in_degree g page_title\<rparr>"

text \<open>
  The invariant of the data model: every title that is the target of a link has an entry
  of its own.
\<close>

definition links_closed :: "adjacency \<Rightarrow> bool" where
  "links_closed adj =
     list_all (\<lambda>entry. list_all (contains adj) (snd entry)) (DAList.impl_of adj)"

lemma count_in_links_eq:
  "count_in_links t entries n = n + length (filter (\<lambda>entry. t \<in> set (snd entry)) entries)"
  by (induction entries arbitrary: n) auto

lemma in_degree_absent:
  assumes "links_closed (adj_list g)" and "\<not> contains (adj_list g) t"
  shows "get_in_degree g t = 0"
proof -
  have "\<not> t \<in> set (snd entry)" if "entry \<in> set (DAList.impl_of (adj_list g))" for entry
  proof
    assume "t \<in> set (snd entry)"
    then have "contains (adj_list g) t"
      using assms(1) that by (auto simp: links_closed_def list_all_iff)
    then show False using assms(2) by simp
  qed
  then have "filter (\<lambda>entry. t \<in> set (snd entry)) (DAList.impl_of (adj_list g)) = []"
    by (simp add: filter_empty_conv)
  then show ?thesis by (simp add: get_in_degree_def count_in_links_eq)
qed

subsection \<open>The fixture graph of the specification\<close>

text \<open>
  The pages \<open>A -> {X, Y, Z}\<close>, \<open>B -> {X, Y}\<close>, \<open>C -> {X}\<close>, \<open>D -> {W}\<close>, with the keys in
  the order in which loading these edges creates them.
\<close>

definition fixture_links :: adjacency where
  "fixture_links = DAList.Alist
     [(''A'', [''X'', ''Y'', ''Z'']), (''X'', []), (''Y'', []), (''Z'', []),
      (''B'', [''X'', ''Y'']), (''C'', [''X'']), (''D'', [''W'']), (''W'', [])]"

definition fixture_graph :: graph where
  "fixture_graph =
     \<lparr>cache_file = ''wikigraph_cache.json'', adj_list = fixture_links,
      start_page = None, end_page = None\<rparr>"

lemma impl_of_fixture_links:
  "DAList.impl_of fixture_links =
     [(''A'', [''X'', ''Y'', ''Z'']), (''X'', []), (''Y'', []), (''Z'', []),
      (''B'', [''X'', ''Y'']), (''C'', [''X'']), (''D'', [''W'']), (''W'', [])]"
  by (simp add: fixture_links_def impl_of_Alist)

lemma lookup_fixture_links:
  "DAList.lookup fixture_links t =
     map_of [(''A'', [''X'', ''Y'', ''Z'']), (''X'', []), (''Y'', []), (''Z'', []),
      (''B'', [''X'', ''Y'']), (''C'', [''X'']), (''D'', [''W'']), (''W'', [])] t"
  by (simp add: DAList.lookup.rep_eq impl_of_fixture_links)

lemma links_closed_fixture: "links_closed (adj_list fixture_graph)"
  by (simp add: links_closed_def fixture_graph_def impl_of_fixture_links contains_def
      lookup_fixture_links)

text \<open>The degrees that the specification expects of the fixture graph.\<close>

lemma fixture_degrees:
  "get_out_degree fixture_graph ''A'' = 3 \<and> get_in_degree fixture_graph ''X'' = 3"
  by (simp add: get_out_degree_def get_in_degree_def get_connections_def fixture_graph_def
      lookup_fixture_links impl_of_fixture_links)

subsection \<open>Recommendations\<close>

text \<open>
  What \<open>recommend_articles\<close> prints: that the page is not in the network, that no article
  shares a link with it, or the recommended pages with their numbers of shared links.
\<close>

datatype recommendation_report =
  PageNotFound | NoRecommendations | Recommendations "(title \<times> nat) list"

text \<open>
  The loop over \<open>self.adj_list.items()\<close> that fills the list \<open>similarities\<close>. The sets
  are Python sets, so a link that occurs twice in a list counts once.
\<close>

fun similarity_scan ::
  "title \<Rightarrow> title set \<Rightarrow> (title \<times> title list) list \<Rightarrow> (title \<times> nat) list" where
  "similarity_scan page_title page_links [] = []"
| "similarity_scan page_title page_links ((other_page, other_links) # rest) =
     (if other_page = page_title then similarity_scan page_title page_links rest
      else (let other_links_set = set other_links;
                shared_links = page_links \<inter> other_links_set;
                similarity_score = card shared_links
            in if similarity_score > 0
               then (other_page, similarity_score) # similarity_scan page_title page_links rest
               else similarity_scan page_title page_links rest))"

text \<open>
  \<open>similarities.sort(key=lambda x: x[1], reverse=True)\<close>. The sort of Python is stable,
  and with \<open>reverse=True\<close> it reverses the list, sorts it in ascending order of the key
  and reverses the result, so that items with equal keys keep their order.
\<close>

definition sort_by_score_desc :: "(title \<times> nat) list \<Rightarrow> (title \<times> nat) list" where
  "sort_by_score_desc similarities = rev (sort_key snd (rev similarities))"

text \<open>
  The slice \<open>xs[:n]\<close>: the first \<open>n\<close> items for \<open>n >= 0\<close>, and all but the last \<open>-n\<close>
  items for a negative \<open>n\<close>.
\<close>

definition slice_to :: "int \<Rightarrow> 'a list \<Rightarrow> 'a list" where
  "slice_to n xs = (if 0 \<le> n then take (nat n) xs else take (nat (int (length xs) + n)) xs)"

text \<open>
  \<open>recommend_articles\<close>: what the method prints, and the value it returns. The two early
  exits are \<open>return None\<close>. The last path computes the list \<open>recommendations\<close> and prints
  it, and the method ends there without a \<open>return\<close> statement, so it returns \<open>None\<close> as
  well. The returned value is an option: \<open>None\<close> for the \<open>None\<close> of Python, \<open>Some\<close> for a
  list of recommendations.
\<close>

definition recommend_articles ::
  "graph \<Rightarrow> title \<Rightarrow> int \<Rightarrow> recommendation_report \<times> (title \<times> nat) list option" where
  "recommend_articles g page_title top_n =
     (case DAList.lookup (adj_list g) page_title of
        None \<Rightarrow> (PageNotFound, None)
      | Some links \<Rightarrow>
          (let page_links = set links;
               similarities = similarity_scan page_title page_links (DAList.impl_of (adj_list g))
           in if similarities = [] then (NoRecommendations, None)
              else (let recommendations = slice_to top_n (sort_by_score_desc similarities)
                    in (Recommendations recommendations, None))))"

text \<open>
  The shared-link count of the specification: the size of the intersection of the two
  pages' sets of out-links.
\<close>

definition shared_count :: "graph \<Rightarrow> title \<Rightarrow> title \<Rightarrow> nat" where
  "shared_count g a b = card (set (get_connections g a) \<inter> set (get_connections g b))"

text \<open>
  The candidates of the specification: every other title of the graph with its
  shared-link count, those with count 0 left out.
\<close>

definition candidates :: "graph \<Rightarrow> title \<Rightarrow> (title \<times> nat) list" where
  "candidates g t =
     filter (\<lambda>c. 0 < snd c)
       (map (\<lambda>other. (other, shared_count g t other))
          (filter (\<lambda>other. other \<noteq> t) (map fst (DAList.impl_of (adj_list g)))))"

lemma similarity_scan_eq:
  "similarity_scan t P entries =
     filter (\<lambda>c. 0 < snd c)
       (map (\<lambda>entry. (fst entry, card (P \<inter> set (snd entry))))
          (filter (\<lambda>entry. fst entry \<noteq> t) entries))"
  by (induction entries) (auto simp: Let_def)

lemma get_connections_entry:
  "entry \<in> set (DAList.impl_of (adj_list g)) \<Longrightarrow> get_connections g (fst entry) = snd entry"
  by (cases entry) (simp add: get_connections_def DAList.lookup.rep_eq)

lemma similarity_scan_candidates:
  assumes "DAList.lookup (adj_list g) t = Some links"
  shows "similarity_scan t (set links) (DAList.impl_of (adj_list g)) = candidates g t"
proof -
  have t_links: "get_connections g t = links"
    using assms by (simp add: get_connections_def)
  have "map (\<lambda>entry. (fst entry, card (set links \<inter> set (snd entry))))
          (filter (\<lambda>entry. fst entry \<noteq> t) (DAList.impl_of (adj_list g)))
        = map (\<lambda>entry. (fst entry, shared_count g t (fst entry)))
          (filter (\<lambda>entry. fst entry \<noteq> t) (DAList.impl_of (adj_list g)))"
    by (rule map_cong) (simp_all add: shared_count_def t_links get_connections_entry)
  also have "\<dots> = map (\<lambda>other. (other, shared_count g t other))
          (filter (\<lambda>other. other \<noteq> t) (map fst (DAList.impl_of (adj_list g))))"
    by (simp add: filter_map comp_def)
  finally show ?thesis
    by (simp add: similarity_scan_eq candidates_def)
qed

lemma recommend_articles_eq:
  assumes "DAList.lookup (adj_list g) t = Some links"
  shows "fst (recommend_articles g t top_n) =
           (if candidates g t = [] then NoRecommendations
            else Recommendations (slice_to top_n (sort_by_score_desc (candidates g t))))"
  using assms by (simp add: recommend_articles_def Let_def similarity_scan_candidates)

lemma snd_recommend_articles: "snd (recommend_articles g t top_n) = None"
  by (simp add: recommend_articles_def Let_def split: option.split)

lemma mset_sort_by_score_desc: "mset (sort_by_score_desc xs) = mset xs"
  by (simp add: sort_by_score_desc_def)

lemma sorted_sort_by_score_desc: "sorted (rev (map snd (sort_by_score_desc xs)))"
  by (simp add: sort_by_score_desc_def rev_map)

lemma length_sort_by_score_desc: "length (sort_by_score_desc xs) = length xs"
  by (simp add: sort_by_score_desc_def)

text \<open>
  C3. For a title of the graph \<open>recommend_articles\<close> should return at most \<open>top_n\<close>
  candidates: every other title with its shared-link count, the size of the intersection
  of the two sets of out-links, those with count 0 left out, sorted by descending count,
  all of them when fewer than \<open>top_n\<close> qualify. For \<open>top_n >= 0\<close> the method computes that
  list and prints it, and it returns \<open>None\<close>, on this path as on every other.
\<close>

theorem recommend_articles_returns_none:
  "snd (recommend_articles g t top_n) = None
   \<and> (contains (adj_list g) t \<and> 0 \<le> top_n \<longrightarrow>
         fst (recommend_articles g t top_n) =
           (if candidates g t = [] then NoRecommendations
            else Recommendations (take (nat top_n) (sort_by_score_desc (candidates g t))))
         \<and> mset (sort_by_score_desc (candidates g t)) = mset (candidates g t)
         \<and> sorted (rev (map snd (sort_by_score_desc (candidates g t))))
         \<and> length (take (nat top_n) (sort_by_score_desc (candidates g t)))
             = min (nat top_n) (length (candidates g t)))"
proof (intro conjI impI)
  show "snd (recommend_articles g t top_n) = None" by (rule snd_recommend_articles)
next
  assume "contains (adj_list g) t \<and> 0 \<le> top_n"
  then obtain links where "DAList.lookup (adj_list g) t = Some links" and "0 \<le> top_n"
    by (auto simp: contains_def)
  then show "fst (recommend_articles g t top_n) =
           (if candidates g t = [] then NoRecommendations
            else Recommendations (take (nat top_n) (sort_by_score_desc (candidates g t))))"
    by (simp add: recommend_articles_eq slice_to_def)
next
  show "mset (sort_by_score_desc (candidates g t)) = mset (candidates g t)"
    by (rule mset_sort_by_score_desc)
next
  show "sorted (rev (map snd (sort_by_score_desc (candidates g t))))"
    by (rule sorted_sort_by_score_desc)
next
  show "length (take (nat top_n) (sort_by_score_desc (candidates g t)))
          = min (nat top_n) (length (candidates g t))"
    by (simp add: length_sort_by_score_desc min.commute)
qed

text \<open>The candidates for page \<open>A\<close> of the fixture graph.\<close>

lemma candidates_fixture:
  "candidates fixture_graph ''A'' = [(''B'', 2), (''C'', 1)]"
  by (simp add: candidates_def shared_count_def get_connections_def fixture_graph_def
      lookup_fixture_links impl_of_fixture_links)

text \<open>
  The example of the specification: in the fixture graph the candidates for \<open>A\<close> are
  \<open>B\<close> with two shared links and \<open>C\<close> with one. For \<open>top_n = 2\<close> the method prints both
  and returns \<open>None\<close>, not the list of the two.
\<close>

theorem recommend_articles_returns_none_witness:
  "contains (adj_list fixture_graph) ''A'' \<and> (0::int) \<le> 2
   \<and> candidates fixture_graph ''A'' = [(''B'', 2), (''C'', 1)]
   \<and> fst (recommend_articles fixture_graph ''A'' 2) = Recommendations [(''B'', 2), (''C'', 1)]
   \<and> snd (recommend_articles fixture_graph ''A'' 2) = None
   \<and> snd (recommend_articles fixture_graph ''A'' 2) \<noteq> Some [(''B'', 2), (''C'', 1)]"
proof -
  have c: "contains (adj_list fixture_graph) ''A''"
    by (simp add: contains_def fixture_graph_def lookup_fixture_links)
  have "fst (recommend_articles fixture_graph ''A'' 2) = Recommendations [(''B'', 2), (''C'', 1)]"
    using recommend_articles_returns_none [of fixture_graph "''A''" 2] c
    by (simp add: candidates_fixture sort_by_score_desc_def)
  moreover have "snd (recommend_articles fixture_graph ''A'' 2) = None"
    using recommend_articles_returns_none [of fixture_graph "''A''" 2] by (rule conjunct1)
  ultimately show ?thesis using c by (simp add: candidates_fixture)
qed

subsection \<open>Termination\<close>

text \<open>
  The \<open>while queue:\<close> loop once more, now without any argument that it ends: a run that
  does not return has the value \<open>None\<close>, a run that returns \<open>r\<close> has the value
  \<open>Some r\<close>.
\<close>

partial_function (option) bfs_while ::
  "graph \<Rightarrow> title \<Rightarrow> (title \<times> title list) list \<Rightarrow> title set \<Rightarrow> path_result option" where
  "bfs_while g end_p queue visited =
     (case queue of
        [] \<Rightarrow> Some PyNone
      | (current_page, path) # rest \<Rightarrow>
          if current_page = end_p then Some (PyPath path)
          else bfs_while g end_p
                 (fst (enqueue_neighbors path (get_connections g current_page) rest
                         (insert current_page visited)))
                 (snd (enqueue_neighbors path (get_connections g current_page) rest
                         (insert current_page visited))))"

text \<open>
  The titles that a run of the loop appends to the queue, in the order of the appends.
\<close>

function bfs_enqueued ::
  "graph \<Rightarrow> title \<Rightarrow> (title \<times> title list) list \<Rightarrow> title set \<Rightarrow> title list" where
  "bfs_enqueued g end_p [] visited = []"
| "bfs_enqueued g end_p ((current_page, path) # queue) visited =
     (if current_page = end_p then []
      else fresh (get_connections g current_page) (insert current_page visited)
           @ bfs_enqueued g end_p
               (fst (enqueue_neighbors path (get_connections g current_page) queue
                       (insert current_page visited)))
               (snd (enqueue_neighbors path (get_connections g current_page) queue
                       (insert current_page visited))))"
  by pat_completeness auto
termination
proof (relation "measure (\<lambda>(g, e, queue, visited).
                   2 * card (link_targets g - visited) + length queue)", goal_cases)
  case 1
  show ?case by simp
next
  case (2 g end_p current_page path queue visited)
  show ?case
    using bfs_iteration_measure [of g path current_page queue visited]
    by (simp add: case_prod_beta)
qed

declare bfs_enqueued.simps [simp del]

lemma bfs_while_returns: "bfs_while g end_p queue visited = Some (bfs_loop g end_p queue visited)"
proof (induction g end_p queue visited rule: bfs_loop.induct)
  case (1 g end_p visited)
  show ?case by (subst bfs_while.simps) (simp add: bfs_loop.simps)
next
  case (2 g end_p current_page path queue visited)
  show ?case
  proof (cases "current_page = end_p")
    case True
    then show ?thesis by (subst bfs_while.simps) (simp add: bfs_loop.simps)
  next
    case False
    then show ?thesis
      using 2 by (subst bfs_while.simps) (simp add: bfs_loop.simps)
  qed
qed

lemma distinct_fresh: "distinct (fresh ns visited)"
  by (induction ns arbitrary: visited) (auto simp: set_fresh)

lemma bfs_enqueued_once:
  "distinct (bfs_enqueued g end_p queue visited)
   \<and> set (bfs_enqueued g end_p queue visited) \<inter> visited = {}
   \<and> set (bfs_enqueued g end_p queue visited) \<subseteq> link_targets g"
proof (induction g end_p queue visited rule: bfs_enqueued.induct)
  case (1 g end_p visited)
  show ?case by (simp add: bfs_enqueued.simps)
next
  case (2 g end_p current_page path queue visited)
  show ?case
  proof (cases "current_page = end_p")
    case True
    then show ?thesis by (simp add: bfs_enqueued.simps)
  next
    case False
    define N where "N = get_connections g current_page"
    define new where "new = fresh N (insert current_page visited)"
    define later where "later = bfs_enqueued g end_p
               (fst (enqueue_neighbors path N queue (insert current_page visited)))
               (snd (enqueue_neighbors path N queue (insert current_page visited)))"
    have unfold: "bfs_enqueued g end_p ((current_page, path) # queue) visited = new @ later"
      using False by (simp add: bfs_enqueued.simps new_def later_def N_def)
    have ih: "distinct later"
      "set later \<inter> (insert current_page visited \<union> set N) = {}"
      "set later \<subseteq> link_targets g"
      using "2.IH" [OF False] by (simp_all add: later_def N_def enqueue_neighbors_eq)
    have new_set: "set new = set N - insert current_page visited"
      by (simp add: new_def set_fresh)
    have "set N \<subseteq> link_targets g" by (simp add: N_def get_connections_targets)
    then have new_sub: "set new \<subseteq> link_targets g" using new_set by auto
    have "distinct (new @ later)"
      using ih(1,2) new_set by (auto simp: new_def distinct_fresh)
    moreover have "set (new @ later) \<inter> visited = {}"
      using ih(2) new_set by auto
    moreover have "set (new @ later) \<subseteq> link_targets g"
      using ih(3) new_sub by simp
    ultimately show ?thesis by (simp only: unfold) 
  qed
qed

lemma length_similarity_scan:
  "length (similarity_scan t page_links entries) \<le> length entries"
  by (induction entries) (auto simp: Let_def)

lemma bfs_enqueued_start:
  "start_p \<notin> set (bfs_enqueued g end_p [(start_p, [start_p])] {})"
proof (cases "start_p = end_p")
  case True
  then show ?thesis by (simp add: bfs_enqueued.simps)
next
  case False
  define N where "N = get_connections g start_p"
  define later where "later = bfs_enqueued g end_p
               (fst (enqueue_neighbors [start_p] N [] (insert start_p {})))
               (snd (enqueue_neighbors [start_p] N [] (insert start_p {})))"
  have unfold: "bfs_enqueued g end_p [(start_p, [start_p])] {} = fresh N (insert start_p {}) @ later"
    using False by (simp add: bfs_enqueued.simps later_def N_def)
  have "set later \<inter> snd (enqueue_neighbors [start_p] N [] (insert start_p {})) = {}"
    unfolding later_def using bfs_enqueued_once by blast
  then have "start_p \<notin> set later" by (auto simp: enqueue_neighbors_eq)
  moreover have "start_p \<notin> set (fresh N (insert start_p {}))" by (simp add: set_fresh)
  ultimately show ?thesis by (simp add: unfold)
qed

text \<open>
  C9. The \<open>while\<close> loop of \<open>find_shortest_path\<close> returns from every state of the queue
  and of \<open>visited\<close>, for every graph and end title, and its value is the one of
  \<open>bfs_loop\<close>; so \<open>find_shortest_path\<close>, which runs the loop after its two checks,
  returns for every graph and pair of titles. In a run from the initial state no title is put into the queue twice,
  the start title included, and every appended title is a link target of the graph, so
  the number of appends is bounded by the number of link targets. The scan of
  \<open>recommend_articles\<close> is one pass over the entries of the mapping: it is defined by
  recursion over their list and yields at most one candidate per entry; the sort and the
  slice that follow are total functions on lists.
\<close>

theorem queries_terminate:
  "bfs_while g end_p queue visited = Some (bfs_loop g end_p queue visited)
   \<and> Some (snd (find_shortest_path g start_p end_p))
       = (if \<not> contains (adj_list g) start_p \<or> \<not> contains (adj_list g) end_p
          then Some PyNone
          else if start_p = end_p then Some (PyTagged 0 [start_p])
          else bfs_while (g\<lparr>start_page := Some start_p, end_page := Some end_p\<rparr>) end_p
                 [(start_p, [start_p])] {})
   \<and> distinct (start_p # bfs_enqueued g end_p [(start_p, [start_p])] {})
   \<and> set (bfs_enqueued g end_p [(start_p, [start_p])] {}) \<subseteq> link_targets g
   \<and> length (bfs_enqueued g end_p [(start_p, [start_p])] {}) \<le> card (link_targets g)
   \<and> length (similarity_scan t page_links (DAList.impl_of (adj_list g)))
         \<le> length (DAList.impl_of (adj_list g))"
proof -
  let ?enq = "bfs_enqueued g end_p [(start_p, [start_p])] {}"
  have d: "distinct ?enq" and sub: "set ?enq \<subseteq> link_targets g"
    using bfs_enqueued_once [of g end_p "[(start_p, [start_p])]" "{}"] by simp_all
  have "length ?enq = card (set ?enq)" using d by (simp add: distinct_card)
  also have "\<dots> \<le> card (link_targets g)"
    using sub by (rule card_mono [OF finite_link_targets])
  finally have bound: "length ?enq \<le> card (link_targets g)" .
  have fsp: "Some (snd (find_shortest_path g start_p end_p))
       = (if \<not> contains (adj_list g) start_p \<or> \<not> contains (adj_list g) end_p
          then Some PyNone
          else if start_p = end_p then Some (PyTagged 0 [start_p])
          else bfs_while (g\<lparr>start_page := Some start_p, end_page := Some end_p\<rparr>) end_p
                 [(start_p, [start_p])] {})"
    by (simp add: find_shortest_path_def Let_def bfs_while_returns)
  show ?thesis
    using d sub bound bfs_enqueued_start [of start_p g end_p] fsp
    by (simp only: bfs_while_returns length_similarity_scan distinct.simps simp_thms)
qed

text \<open>
  In the example graph the loop returns the path to \<open>E\<close> and returns \<open>None\<close> for the
  unreachable \<open>F\<close>; in the latter run, which empties the queue, it appends \<open>B\<close>, \<open>C\<close>,
  \<open>D\<close> and \<open>E\<close> once each.
\<close>

theorem queries_terminate_witness:
  "bfs_while example_graph ''E'' [(''A'', [''A''])] {} = Some (PyPath [''A'', ''C'', ''E''])
   \<and> bfs_while example_graph ''F'' [(''A'', [''A''])] {} = Some PyNone
   \<and> bfs_enqueued example_graph ''F'' [(''A'', [''A''])] {} = [''B'', ''C'', ''D'', ''E'']
   \<and> distinct [''A'', ''B'', ''C'', ''D'', ''E'']"
proof -
  have "bfs_loop example_graph ''E'' [(''A'', [''A''])] {} = PyPath [''A'', ''C'', ''E'']"
    by (simp add: bfs_loop.simps get_connections_example)
  moreover have "bfs_loop example_graph ''F'' [(''A'', [''A''])] {} = PyNone"
    by (simp add: bfs_loop.simps get_connections_example)
  moreover have "bfs_enqueued example_graph ''F'' [(''A'', [''A''])] {}
                   = [''B'', ''C'', ''D'', ''E'']"
    by (simp add: bfs_enqueued.simps get_connections_example)
  ultimately show ?thesis
    using queries_terminate [of example_graph "''E''" "[(''A'', [''A''])]" "{}"]
      queries_terminate [of example_graph "''F''" "[(''A'', [''A''])]" "{}" "''A''"]
    by simp
qed

subsection \<open>What a query changes\<close>

text \<open>
  The calls of the query methods of the class. \<open>get_page_categories\<close> and
  \<open>find_common_categories\<close> ask a remote service and are left out.
\<close>

datatype query =
  FindShortestPath title title
| PrintShortestPath title title
| GetConnections title
| GetOutDegree title
| GetInDegree title
| PrintDegrees title
| RecommendArticles title int

text \<open>
  The object after a call. \<open>find_shortest_path\<close> assigns \<open>self.start_page\<close> and
  \<open>self.end_page\<close>, and \<open>print_shortest_path\<close> calls it. The bodies of the other
  methods read \<open>self.adj_list\<close> and assign to no attribute of \<open>self\<close>.
\<close>

fun after_query :: "graph \<Rightarrow> query \<Rightarrow> graph" where
  "after_query g (FindShortestPath start_p end_p) = fst (find_shortest_path g start_p end_p)"
| "after_query g (PrintShortestPath start_p end_p) = fst (print_shortest_path g start_p end_p)"
| "after_query g (GetConnections page_title) = g"
| "after_query g (GetOutDegree page_title) = g"
| "after_query g (GetInDegree page_title) = g"
| "after_query g (PrintDegrees page_title) = g"
| "after_query g (RecommendArticles page_title top_n) = g"

lemma fst_find_shortest_path:
  "fst (find_shortest_path g start_p end_p)
     = g\<lparr>start_page := Some start_p, end_page := Some end_p\<rparr>"
  by (simp add: find_shortest_path_def Let_def)

lemma fst_print_shortest_path:
  "fst (print_shortest_path g start_p end_p)
     = g\<lparr>start_page := Some start_p, end_page := Some end_p\<rparr>"
proof -
  obtain g' r where fsp: "find_shortest_path g start_p end_p = (g', r)"
    by (cases "find_shortest_path g start_p end_p")
  then have "g' = g\<lparr>start_page := Some start_p, end_page := Some end_p\<rparr>"
    using fst_find_shortest_path [of g start_p end_p] by simp
  then show ?thesis
    by (cases r) (simp_all add: print_shortest_path_def fsp)
qed

text \<open>
  C10. \<open>find_shortest_path\<close> sets \<open>start_page\<close> and \<open>end_page\<close> to its arguments
  whatever it returns, so also when it returns \<open>None\<close> for an absent or unreachable
  title, and leaves the other attributes as they are; no query changes \<open>adj_list\<close> or
  \<open>cache_file\<close>.
\<close>

theorem find_shortest_path_sets_pointers:
  "fst (find_shortest_path g start_p end_p)
     = g\<lparr>start_page := Some start_p, end_page := Some end_p\<rparr>
   \<and> adj_list (after_query g q) = adj_list g
   \<and> cache_file (after_query g q) = cache_file g"
  by (cases q) (simp_all add: fst_find_shortest_path fst_print_shortest_path)

text \<open>
  In the example graph the query for the absent title \<open>Z\<close> and the query for the
  unreachable title \<open>F\<close> both return \<open>None\<close> and both leave their arguments in the
  session pointers.
\<close>

theorem find_shortest_path_sets_pointers_witness:
  "snd (find_shortest_path example_graph ''Z'' ''A'') = PyNone
   \<and> fst (find_shortest_path example_graph ''Z'' ''A'')
       = example_graph\<lparr>start_page := Some ''Z'', end_page := Some ''A''\<rparr>
   \<and> snd (find_shortest_path example_graph ''A'' ''F'') = PyNone
   \<and> fst (find_shortest_path example_graph ''A'' ''F'')
       = example_graph\<lparr>start_page := Some ''A'', end_page := Some ''F''\<rparr>
   \<and> adj_list (after_query example_graph (FindShortestPath ''A'' ''F'')) = example_links"
proof -
  have "snd (find_shortest_path example_graph ''Z'' ''A'') = PyNone"
    by (simp add: find_shortest_path_def Let_def contains_example_links)
  then show ?thesis
    using find_shortest_path_sets_pointers [of example_graph "''Z''" "''A''"]
      find_shortest_path_sets_pointers [of example_graph "''A''" "''F''" "FindShortestPath ''A'' ''F''"]
      example_no_path
    by (simp add: example_graph_def)
qed

subsection \<open>The cache file\<close>

text \<open>A JSON document.\<close>

datatype json =
  JNull
| JBool bool
| JNumber int
| JString string
| JArray "json list"
| JObject "(string \<times> json) list"

text \<open>
  Modelled from the spec: \<open>json.dump\<close> is a function of the Python library and not of the
  repository. The cache representation of the specification is a JSON object whose keys
  are the page titles and whose values are the arrays of the destination titles, in the
  order of the out-links; the members follow the order of the mapping.
\<close>

definition json_dump :: "adjacency \<Rightarrow> json" where
  "json_dump adj =
     JObject (map (\<lambda>entry. (fst entry, JArray (map JString (snd entry)))) (DAList.impl_of adj))"

text \<open>
  Modelled from the spec: \<open>json.load\<close>, for a document of the cache representation. An
  array of strings becomes a list of titles, and the members of the object are assigned
  to a new \<open>dict\<close> in their order, so a key that occurs again replaces the earlier value.
  A document of any other shape makes \<open>json.load\<close> return a value that is not a mapping
  from titles to lists of titles; it has the value \<open>None\<close> here.
\<close>

fun json_strings :: "json list \<Rightarrow> string list option" where
  "json_strings [] = Some []"
| "json_strings (JString s # rest) = map_option ((#) s) (json_strings rest)"
| "json_strings (other # rest) = None"

fun json_members :: "(string \<times> json) list \<Rightarrow> adjacency \<Rightarrow> adjacency option" where
  "json_members [] adj = Some adj"
| "json_members ((key, JArray items) # rest) adj =
     (case json_strings items of
        None \<Rightarrow> None
      | Some links \<Rightarrow> json_members rest (DAList.update key links adj))"
| "json_members ((key, other) # rest) adj = None"

fun json_load :: "json \<Rightarrow> adjacency option" where
  "json_load (JObject members) = json_members members DAList.empty"
| "json_load other = None"

text \<open>
  The files of the cache, by name: a file is modelled by the JSON document that it holds.
\<close>

type_synonym files = "string \<Rightarrow> json option"

text \<open>\<open>cache_data\<close>: the files after \<open>json.dump(self.adj_list, f, ...)\<close>.\<close>

definition cache_data :: "graph \<Rightarrow> string \<Rightarrow> files \<Rightarrow> files" where
  "cache_data g file_name fs = fs(file_name \<mapsto> json_dump (adj_list g))"

text \<open>
  \<open>load_cache\<close>: the object after the call and the value returned, \<open>loaded\<close>. The result
  is \<open>None\<close> where the document in the file is not a mapping from titles to lists of
  titles, the case that the type of \<open>adj_list\<close> leaves out.
\<close>

definition load_cache :: "graph \<Rightarrow> string \<Rightarrow> files \<Rightarrow> (graph \<times> bool) option" where
  "load_cache g file_name fs =
     (case fs file_name of
        None \<Rightarrow> Some (g, False)
      | Some document \<Rightarrow>
          (case json_load document of
             None \<Rightarrow> None
           | Some adj \<Rightarrow> Some (g\<lparr>adj_list := adj\<rparr>, True)))"

lemma json_strings_map: "json_strings (map JString links) = Some links"
  by (induction links) simp_all

lemma update_fresh_key:
  "k \<notin> fst ` set al \<Longrightarrow> AList.update k v al = al @ [(k, v)]"
  by (induction al) auto

lemma json_members_dump:
  assumes "distinct (map fst (DAList.impl_of adj @ entries))"
  shows "json_members (map (\<lambda>entry. (fst entry, JArray (map JString (snd entry)))) entries) adj
           = Some (DAList.Alist (DAList.impl_of adj @ entries))"
  using assms
proof (induction entries arbitrary: adj)
  case Nil
  then show ?case by (simp add: DAList.impl_of_inverse)
next
  case (Cons entry entries)
  obtain k links where entry: "entry = (k, links)" by (cases entry)
  have fresh: "k \<notin> fst ` set (DAList.impl_of adj)"
    using Cons.prems by (auto simp: entry)
  have upd: "DAList.impl_of (DAList.update k links adj) = DAList.impl_of adj @ [(k, links)]"
    using fresh by (simp add: DAList.update.rep_eq update_fresh_key)
  have "distinct (map fst (DAList.impl_of (DAList.update k links adj) @ entries))"
    using Cons.prems by (simp add: upd entry)
  then have "json_members
               (map (\<lambda>entry. (fst entry, JArray (map JString (snd entry)))) entries)
               (DAList.update k links adj)
             = Some (DAList.Alist (DAList.impl_of (DAList.update k links adj) @ entries))"
    by (rule Cons.IH)
  then show ?case by (simp add: entry json_strings_map upd)
qed

lemma json_round_trip: "json_load (json_dump adj) = Some adj"
proof -
  have "distinct (map fst (DAList.impl_of (DAList.empty :: adjacency) @ DAList.impl_of adj))"
    by (simp add: DAList.empty.rep_eq)
  then have "json_members
               (map (\<lambda>entry. (fst entry, JArray (map JString (snd entry)))) (DAList.impl_of adj))
               DAList.empty
             = Some (DAList.Alist (DAList.impl_of (DAList.empty :: adjacency) @ DAList.impl_of adj))"
    by (rule json_members_dump)
  then show ?thesis
    by (simp add: json_dump_def DAList.empty.rep_eq DAList.impl_of_inverse)
qed

text \<open>
  C7. Writing the adjacency mapping of a graph with \<open>cache_data\<close> and reading the file
  back with \<open>load_cache\<close> gives the same mapping: the same keys in the same order, each
  with the same sequence of out-links. The document written is the JSON object of the
  mapping's entries.
\<close>

theorem cache_round_trip:
  "load_cache g0 file_name (cache_data g file_name fs) = Some (g0\<lparr>adj_list := adj_list g\<rparr>, True)
   \<and> cache_data g file_name fs file_name
       = Some (JObject (map (\<lambda>entry. (fst entry, JArray (map JString (snd entry))))
                  (DAList.impl_of (adj_list g))))"
  by (simp add: load_cache_def cache_data_def json_round_trip) (simp add: json_dump_def)

text \<open>
  The mapping of the fixture graph, written to the cache file and read back into another
  object, with the document that the file holds in between.
\<close>

theorem cache_round_trip_witness:
  "load_cache example_graph ''wikigraph_cache.json''
     (cache_data fixture_graph ''wikigraph_cache.json'' Map.empty)
     = Some (example_graph\<lparr>adj_list := fixture_links\<rparr>, True)
   \<and> cache_data fixture_graph ''wikigraph_cache.json'' Map.empty ''wikigraph_cache.json''
       = Some (JObject
           [(''A'', JArray [JString ''X'', JString ''Y'', JString ''Z'']),
            (''X'', JArray []), (''Y'', JArray []), (''Z'', JArray []),
            (''B'', JArray [JString ''X'', JString ''Y'']), (''C'', JArray [JString ''X'']),
            (''D'', JArray [JString ''W'']), (''W'', JArray [])])"
  using cache_round_trip [of example_graph "''wikigraph_cache.json''" fixture_graph Map.empty]
  by (simp add: fixture_graph_def impl_of_fixture_links)

subsection \<open>Loading the edge list\<close>

text \<open>
  The characters that \<open>str.strip\<close> removes, the ones for which \<open>str.isspace\<close> holds, by
  their UTF-8 encodings: the code points 9 to 13, 28 to 32, U+0085, U+00A0, U+1680,
  U+2000 to U+200A, U+2028, U+2029, U+202F, U+205F and U+3000.
\<close>

definition white_space :: "string list" where
  "white_space =
     [[CHR 0x09], [CHR 0x0A], [CHR 0x0B], [CHR 0x0C], [CHR 0x0D],
      [CHR 0x1C], [CHR 0x1D], [CHR 0x1E], [CHR 0x1F], [CHR 0x20],
      [CHR 0xC2, CHR 0x85], [CHR 0xC2, CHR 0xA0], [CHR 0xE1, CHR 0x9A, CHR 0x80],
      [CHR 0xE2, CHR 0x80, CHR 0x80], [CHR 0xE2, CHR 0x80, CHR 0x81],
      [CHR 0xE2, CHR 0x80, CHR 0x82], [CHR 0xE2, CHR 0x80, CHR 0x83],
      [CHR 0xE2, CHR 0x80, CHR 0x84], [CHR 0xE2, CHR 0x80, CHR 0x85],
      [CHR 0xE2, CHR 0x80, CHR 0x86], [CHR 0xE2, CHR 0x80, CHR 0x87],
      [CHR 0xE2, CHR 0x80, CHR 0x88], [CHR 0xE2, CHR 0x80, CHR 0x89],
      [CHR 0xE2, CHR 0x80, CHR 0x8A], [CHR 0xE2, CHR 0x80, CHR 0xA8],
      [CHR 0xE2, CHR 0x80, CHR 0xA9], [CHR 0xE2, CHR 0x80, CHR 0xAF],
      [CHR 0xE2, CHR 0x81, CHR 0x9F], [CHR 0xE3, CHR 0x80, CHR 0x80]]"

text \<open>
  The number of bytes of the character at the beginning of \<open>s\<close> when that character has
  one of the given encodings, and 0 otherwise.
\<close>

definition space_length :: "string list \<Rightarrow> string \<Rightarrow> nat" where
  "space_length codes s =
     (case find (\<lambda>code. take (length code) s = code) codes of
        None \<Rightarrow> 0
      | Some code \<Rightarrow> length code)"

lemma space_length_le: "space_length codes s \<le> length s"
proof (cases "find (\<lambda>code. take (length code) s = code) codes")
  case None
  then show ?thesis by (simp add: space_length_def)
next
  case (Some code)
  then have "take (length code) s = code" by (auto simp: find_Some_iff)
  then have "length (take (length code) s) = length code" by simp
  then have "length code \<le> length s" by simp
  then show ?thesis using Some by (simp add: space_length_def)
qed

text \<open>Removing the characters with the given encodings from the beginning of \<open>s\<close>.\<close>

function drop_spaces :: "string list \<Rightarrow> string \<Rightarrow> string" where
  "drop_spaces codes s =
     (if space_length codes s = 0 then s
      else drop_spaces codes (drop (space_length codes s) s))"
  by pat_completeness auto
termination
proof (relation "measure (\<lambda>(codes, s). length s)", goal_cases)
  case 1
  show ?case by simp
next
  case (2 codes s)
  then show ?case using space_length_le [of codes s] by simp
qed

declare drop_spaces.simps [simp del]

text \<open>
  \<open>line.strip()\<close>: the white space is removed from the beginning and, read backwards,
  from the end. An encoding begins with the one byte of its character that is no
  continuation byte, so at the end of a text it is matched by a whole character only.
\<close>

definition strip :: "string \<Rightarrow> string" where
  "strip line = rev (drop_spaces (map rev white_space) (rev (drop_spaces white_space line)))"

text \<open>
  \<open>s.split(sep)\<close> for a separator of one character: the parts between the separators,
  one more than there are separators, the empty ones included.
\<close>

fun split_on :: "char \<Rightarrow> string \<Rightarrow> string list" where
  "split_on sep [] = [[]]"
| "split_on sep (c # cs) =
     (if c = sep then [] # split_on sep cs
      else (case split_on sep cs of
              [] \<Rightarrow> [[c]]
            | part # parts \<Rightarrow> (c # part) # parts))"

definition tab :: char where
  "tab = CHR 0x09"

text \<open>\<open>parts = line.strip().split('\t')\<close>\<close>

definition line_parts :: "string \<Rightarrow> string list" where
  "line_parts line = split_on tab (strip line)"

text \<open>
  The three statements that add an edge: the two that give a new title an empty list,
  and the append to the list of \<open>from_title\<close>, which has an entry by then.
\<close>

definition add_edge :: "adjacency \<Rightarrow> title \<Rightarrow> title \<Rightarrow> adjacency" where
  "add_edge adj from_title to_title =
     (let adj1 = (if \<not> contains adj from_title then DAList.update from_title [] adj else adj);
          adj2 = (if \<not> contains adj1 to_title then DAList.update to_title [] adj1 else adj1)
      in DAList.map_entry from_title (\<lambda>links. links @ [to_title]) adj2)"

text \<open>The \<open>for line in file\<close> loop, over the lines that follow the header.\<close>

fun read_lines :: "adjacency \<Rightarrow> string list \<Rightarrow> adjacency" where
  "read_lines adj [] = adj"
| "read_lines adj (line # rest) =
     (let parts = line_parts line
      in if length parts \<noteq> 4 then read_lines adj rest
         else (let from_title = parts ! 1; to_title = parts ! 3
               in read_lines (add_edge adj from_title to_title) rest))"

text \<open>
  \<open>build_graph_from_file\<close>. The source is the list of the lines of the file at
  \<open>filepath\<close>, or \<open>None\<close> when the file cannot be opened. \<open>next(file)\<close> takes the first
  line and raises \<open>StopIteration\<close> when there is none. The result is the object after the
  call and the files after \<open>self.cache_data(self.cache_file)\<close>.
\<close>

definition build_graph_from_file ::
  "graph \<Rightarrow> string list option \<Rightarrow> files \<Rightarrow> py_error + (graph \<times> files)" where
  "build_graph_from_file g source fs =
     (case source of
        None \<Rightarrow> Inl FileNotFoundError
      | Some [] \<Rightarrow> Inl StopIteration
      | Some (header # lines) \<Rightarrow>
          (let g' = g\<lparr>adj_list := read_lines (adj_list g) lines\<rparr>
           in Inr (g', cache_data g' (cache_file g') fs)))"

text \<open>
  The edge records of the specification: of the lines that have exactly four fields, the
  second field and the fourth.
\<close>

definition edge_records :: "string list \<Rightarrow> (title \<times> title) list" where
  "edge_records lines =
     map (\<lambda>line. (line_parts line ! 1, line_parts line ! 3))
       (filter (\<lambda>line. length (line_parts line) = 4) lines)"

text \<open>Adding the edges of a list of records, one after the other.\<close>

definition add_edges :: "adjacency \<Rightarrow> (title \<times> title) list \<Rightarrow> adjacency" where
  "add_edges adj records = foldl (\<lambda>adj record. add_edge adj (fst record) (snd record)) adj records"

lemma read_lines_eq: "read_lines adj lines = add_edges adj (edge_records lines)"
  by (induction lines arbitrary: adj) (simp_all add: add_edges_def edge_records_def Let_def)

lemma edge_records_skip:
  "length (line_parts line) \<noteq> 4 \<Longrightarrow> edge_records (line # lines) = edge_records lines"
  by (simp add: edge_records_def)

lemma edge_records_take:
  "line_parts line = [from_id, from_title, to_id, to_title] \<Longrightarrow>
   edge_records (line # lines) = (from_title, to_title) # edge_records lines"
  by (simp add: edge_records_def)

subsection \<open>The effect of loading\<close>

lemma lookup_map_entry:
  "DAList.lookup (DAList.map_entry k f al) k'
     = (if k' = k then map_option f (DAList.lookup al k) else DAList.lookup al k')"
  by (simp add: DAList.lookup.rep_eq DAList.map_entry.rep_eq map_of_map_entry
      split: option.split)

lemma lookup_add_edge:
  "DAList.lookup (add_edge adj f t) a
     = (if a = f then Some ((case DAList.lookup adj f of None \<Rightarrow> [] | Some links \<Rightarrow> links) @ [t])
        else if a = t then Some (case DAList.lookup adj t of None \<Rightarrow> [] | Some links \<Rightarrow> links)
        else DAList.lookup adj a)"
  by (auto simp: add_edge_def contains_def Let_def lookup_map_entry DAList.lookup_update
      split: option.split)

lemma contains_add_edge: "contains (add_edge adj f t) a = (contains adj a \<or> a = f \<or> a = t)"
  by (auto simp: contains_def lookup_add_edge)

lemma get_connections_add_edge:
  "adj_list g' = add_edge (adj_list g) f t \<Longrightarrow>
   get_connections g' a = get_connections g a @ (if a = f then [t] else [])"
  by (auto simp: get_connections_def lookup_add_edge split: option.split)

lemma add_edges_effect:
  "adj_list g' = add_edges (adj_list g) records \<Longrightarrow>
   get_connections g' a = get_connections g a @ map snd (filter (\<lambda>record. fst record = a) records)
   \<and> contains (adj_list g') a
       = (contains (adj_list g) a \<or> a \<in> fst ` set records \<or> a \<in> snd ` set records)"
proof (induction records arbitrary: g)
  case Nil
  then show ?case by (simp add: add_edges_def get_connections_def)
next
  case (Cons r rs)
  define g1 where "g1 = g\<lparr>adj_list := add_edge (adj_list g) (fst r) (snd r)\<rparr>"
  have step: "adj_list g1 = add_edge (adj_list g) (fst r) (snd r)"
    by (simp add: g1_def)
  have "adj_list g' = add_edges (adj_list g1) rs"
    using Cons.prems by (simp add: add_edges_def g1_def)
  then have ih: "get_connections g' a
        = get_connections g1 a @ map snd (filter (\<lambda>e. fst e = a) rs)"
    "contains (adj_list g') a
        = (contains (adj_list g1) a \<or> a \<in> fst ` set rs \<or> a \<in> snd ` set rs)"
    using Cons.IH [of g1] by simp_all
  have "get_connections g1 a = get_connections g a @ (if a = fst r then [snd r] else [])"
    using step by (rule get_connections_add_edge)
  moreover have "contains (adj_list g1) a
                   = (contains (adj_list g) a \<or> a = fst r \<or> a = snd r)"
    by (simp add: step contains_add_edge)
  ultimately show ?case using ih by auto
qed

lemma build_graph_from_file_eq:
  "build_graph_from_file g (Some (header # lines)) fs
     = Inr (g\<lparr>adj_list := add_edges (adj_list g) (edge_records lines)\<rparr>,
            cache_data (g\<lparr>adj_list := add_edges (adj_list g) (edge_records lines)\<rparr>)
              (cache_file g) fs)"
  by (simp add: build_graph_from_file_def Let_def read_lines_eq)

subsection \<open>An example edge list\<close>

text \<open>
  A header, the record of the edge from \<open>A\<close> to \<open>B\<close>, a line that is not a record, the
  same record again, and the record of the edge from \<open>C\<close> to \<open>A\<close>, the last line without
  a line feed.
\<close>

definition edge_file :: "string list" where
  "edge_file =
     [''page_id_from'' @ [tab] @ ''page_title_from'' @ [tab] @ ''page_id_to'' @ [tab]
        @ ''page_title_to'' @ [CHR 0x0A],
      ''1'' @ [tab] @ ''A'' @ [tab] @ ''2'' @ [tab] @ ''B'' @ [CHR 0x0A],
      ''not a record'' @ [CHR 0x0A],
      ''1'' @ [tab] @ ''A'' @ [tab] @ ''2'' @ [tab] @ ''B'' @ [CHR 0x0A],
      ''3'' @ [tab] @ ''C'' @ [tab] @ ''1'' @ [tab] @ ''A'']"

definition empty_graph :: graph where
  "empty_graph =
     \<lparr>cache_file = ''wikigraph_cache.json'', adj_list = DAList.empty,
      start_page = None, end_page = None\<rparr>"

lemma line_parts_edge_file:
  "map line_parts (tl edge_file) =
     [[''1'', ''A'', ''2'', ''B''], [''not a record''], [''1'', ''A'', ''2'', ''B''],
      [''3'', ''C'', ''1'', ''A'']]"
  by (simp add: edge_file_def line_parts_def strip_def drop_spaces.simps space_length_def white_space_def tab_def)

lemma edge_records_edge_file:
  "edge_records (tl edge_file) = [(''A'', ''B''), (''A'', ''B''), (''C'', ''A'')]"
  using line_parts_edge_file by (simp add: edge_records_def edge_file_def)

lemma adjacency_edge_file:
  "DAList.impl_of (add_edges DAList.empty [(''A'', ''B''), (''A'', ''B''), (''C'', ''A'')])
     = [(''A'', [''B'', ''B'']), (''B'', []), (''C'', [''A''])]"
  by (simp add: add_edges_def add_edge_def contains_def Let_def DAList.lookup.rep_eq
      DAList.update.rep_eq DAList.map_entry.rep_eq DAList.empty.rep_eq)

text \<open>
  The text of a line as the file holds it: the line without the line feed at its end.
\<close>

definition chomp :: "string \<Rightarrow> string" where
  "chomp line = (if line \<noteq> [] \<and> last line = CHR 0x0A then butlast line else line)"

text \<open>
  The fields of a line in the words of the specification: the parts of the text of the
  line between its tabs.
\<close>

definition tab_separated_fields :: "string \<Rightarrow> string list" where
  "tab_separated_fields line = split_on tab (chomp line)"

text \<open>
  C4, as amended. For a source that has a first line, \<open>build_graph_from_file\<close> leaves
  the first line out whatever it holds, skips every later line whose text, with the white
  space at its two ends removed, tabs included, does not split into exactly four fields,
  and for every other line adds one edge from the second field to the fourth field of
  that stripped text, in the order of the lines; the first and the third field, the
  numeric ids, are not used. Adding the edge from \<open>f\<close> to \<open>t\<close> appends \<open>t\<close> to the
  out-links of \<open>f\<close> and changes the out-links of no other title.
\<close>

theorem load_reads_edge_records:
  "build_graph_from_file g (Some (header # lines)) fs
     = Inr (g\<lparr>adj_list := add_edges (adj_list g) (edge_records lines)\<rparr>,
            cache_data (g\<lparr>adj_list := add_edges (adj_list g) (edge_records lines)\<rparr>)
              (cache_file g) fs)
   \<and> line_parts line = split_on tab (strip line)
   \<and> edge_records [] = []
   \<and> (length (line_parts line) \<noteq> 4 \<longrightarrow> edge_records (line # rest) = edge_records rest)
   \<and> (line_parts line = [from_id, from_title, to_id, to_title] \<longrightarrow>
         edge_records (line # rest) = (from_title, to_title) # edge_records rest)
   \<and> add_edges adj [] = adj
   \<and> add_edges adj ((f, t) # records) = add_edges (add_edge adj f t) records
   \<and> get_connections (g\<lparr>adj_list := add_edge (adj_list g) f t\<rparr>) a
       = get_connections g a @ (if a = f then [t] else [])"
proof -
  have "get_connections (g\<lparr>adj_list := add_edge (adj_list g) f t\<rparr>) a
          = get_connections g a @ (if a = f then [t] else [])"
    by (rule get_connections_add_edge) simp
  moreover have "edge_records [] = []" by (simp add: edge_records_def)
  moreover have "add_edges adj [] = adj"
    and "add_edges adj ((f, t) # records) = add_edges (add_edge adj f t) records"
    by (simp_all add: add_edges_def)
  ultimately show ?thesis
    using build_graph_from_file_eq [of g header lines fs]
      edge_records_skip [of line rest]
      edge_records_take [of line from_id from_title to_id to_title rest]
    by (simp add: line_parts_def)
qed

text \<open>
  The example edge list, loaded into an empty graph: the header and the line that is not
  a record leave no trace, and the three records give three edges.
\<close>

theorem load_reads_edge_records_witness:
  "build_graph_from_file empty_graph (Some edge_file) Map.empty
     = Inr (empty_graph\<lparr>adj_list :=
              add_edges DAList.empty [(''A'', ''B''), (''A'', ''B''), (''C'', ''A'')]\<rparr>,
            cache_data (empty_graph\<lparr>adj_list :=
              add_edges DAList.empty [(''A'', ''B''), (''A'', ''B''), (''C'', ''A'')]\<rparr>)
              ''wikigraph_cache.json'' Map.empty)
   \<and> length (line_parts (''not a record'' @ [CHR 0x0A])) \<noteq> 4
   \<and> edge_records (drop 2 edge_file) = edge_records (drop 3 edge_file)
   \<and> line_parts (''3'' @ [tab] @ ''C'' @ [tab] @ ''1'' @ [tab] @ ''A'') = [''3'', ''C'', ''1'', ''A'']
   \<and> edge_records (drop 4 edge_file) = [(''C'', ''A'')]
   \<and> DAList.impl_of (add_edges DAList.empty [(''A'', ''B''), (''A'', ''B''), (''C'', ''A'')])
       = [(''A'', [''B'', ''B'']), (''B'', []), (''C'', [''A''])]"
proof -
  have hd_tl: "edge_file = hd edge_file # tl edge_file" by (simp add: edge_file_def)
  have empty: "adj_list empty_graph = DAList.empty" "cache_file empty_graph = ''wikigraph_cache.json''"
    by (simp_all add: empty_graph_def)
  have "build_graph_from_file empty_graph (Some (hd edge_file # tl edge_file)) Map.empty
     = Inr (empty_graph\<lparr>adj_list := add_edges (adj_list empty_graph) (edge_records (tl edge_file))\<rparr>,
            cache_data (empty_graph\<lparr>adj_list :=
                add_edges (adj_list empty_graph) (edge_records (tl edge_file))\<rparr>)
              (cache_file empty_graph) Map.empty)"
    using load_reads_edge_records [of empty_graph "hd edge_file" "tl edge_file" Map.empty]
    by (rule conjunct1)
  then have build: "build_graph_from_file empty_graph (Some edge_file) Map.empty
     = Inr (empty_graph\<lparr>adj_list :=
              add_edges DAList.empty [(''A'', ''B''), (''A'', ''B''), (''C'', ''A'')]\<rparr>,
            cache_data (empty_graph\<lparr>adj_list :=
              add_edges DAList.empty [(''A'', ''B''), (''A'', ''B''), (''C'', ''A'')]\<rparr>)
              ''wikigraph_cache.json'' Map.empty)"
    by (simp only: hd_tl [symmetric] empty edge_records_edge_file)
  have p1: "line_parts (''not a record'' @ [CHR 0x0A]) = [''not a record'']"
    by (simp add: line_parts_def strip_def drop_spaces.simps space_length_def
        white_space_def tab_def)
  have p2: "line_parts (''3'' @ [tab] @ ''C'' @ [tab] @ ''1'' @ [tab] @ ''A'')
              = [''3'', ''C'', ''1'', ''A'']"
    by (simp add: line_parts_def strip_def drop_spaces.simps space_length_def
        white_space_def tab_def)
  have d2: "drop 2 edge_file = (''not a record'' @ [CHR 0x0A]) # drop 3 edge_file"
    and d4: "drop 4 edge_file = [''3'' @ [tab] @ ''C'' @ [tab] @ ''1'' @ [tab] @ ''A'']"
    by (simp_all add: edge_file_def)
  have n4: "length (line_parts (''not a record'' @ [CHR 0x0A])) \<noteq> 4"
    by (simp only: p1) simp
  have skip: "edge_records (drop 2 edge_file) = edge_records (drop 3 edge_file)"
    unfolding d2 using n4 by (rule edge_records_skip)
  have "edge_records [''3'' @ [tab] @ ''C'' @ [tab] @ ''1'' @ [tab] @ ''A'']
          = (''C'', ''A'') # edge_records []"
    using p2 by (rule edge_records_take)
  then have last_record: "edge_records (drop 4 edge_file) = [(''C'', ''A'')]"
    unfolding d4 by (simp add: edge_records_def)
  show ?thesis
    using build n4 skip p2 last_record adjacency_edge_file by (intro conjI)
qed

text \<open>
  The claim as worded, with the fields of the text of the line, fails where the text
  begins or ends with a tab, as \<open>strip\<close> removes it before the split. A line with a fifth,
  empty field after a last tab is taken as a record; a line with four fields of which
  the first or the last is empty is skipped. A source without any line raises
  \<open>StopIteration\<close>.
\<close>

theorem load_strips_tabs:
  "tab_separated_fields (''1'' @ [tab] @ ''A'' @ [tab] @ ''2'' @ [tab] @ ''B'' @ [tab, CHR 0x0A])
     = [''1'', ''A'', ''2'', ''B'', []]
   \<and> DAList.impl_of (read_lines DAList.empty
         [''1'' @ [tab] @ ''A'' @ [tab] @ ''2'' @ [tab] @ ''B'' @ [tab, CHR 0x0A]])
       = [(''A'', [''B'']), (''B'', [])]
   \<and> tab_separated_fields ([tab] @ ''A'' @ [tab] @ ''2'' @ [tab] @ ''B'' @ [CHR 0x0A])
       = [[], ''A'', ''2'', ''B'']
   \<and> DAList.impl_of (read_lines DAList.empty
         [[tab] @ ''A'' @ [tab] @ ''2'' @ [tab] @ ''B'' @ [CHR 0x0A]]) = []
   \<and> tab_separated_fields (''1'' @ [tab] @ ''A'' @ [tab] @ ''2'' @ [tab, CHR 0x0A])
       = [''1'', ''A'', ''2'', []]
   \<and> DAList.impl_of (read_lines DAList.empty
         [''1'' @ [tab] @ ''A'' @ [tab] @ ''2'' @ [tab, CHR 0x0A]]) = []
   \<and> build_graph_from_file empty_graph (Some []) Map.empty = Inl StopIteration"
proof -
  have l5: "line_parts (''1'' @ [tab] @ ''A'' @ [tab] @ ''2'' @ [tab] @ ''B'' @ [tab, CHR 0x0A])
              = [''1'', ''A'', ''2'', ''B'']"
    by (simp add: line_parts_def strip_def drop_spaces.simps space_length_def
        white_space_def tab_def)
  have l4: "line_parts ([tab] @ ''A'' @ [tab] @ ''2'' @ [tab] @ ''B'' @ [CHR 0x0A])
              = [''A'', ''2'', ''B'']"
    by (simp add: line_parts_def strip_def drop_spaces.simps space_length_def
        white_space_def tab_def)
  have l3: "line_parts (''1'' @ [tab] @ ''A'' @ [tab] @ ''2'' @ [tab, CHR 0x0A])
              = [''1'', ''A'', ''2'']"
    by (simp add: line_parts_def strip_def drop_spaces.simps space_length_def
        white_space_def tab_def)
  have edge: "DAList.impl_of (add_edge DAList.empty ''A'' ''B'') = [(''A'', [''B'']), (''B'', [])]"
    by (simp add: add_edge_def contains_def Let_def DAList.lookup.rep_eq
        DAList.update.rep_eq DAList.map_entry.rep_eq DAList.empty.rep_eq)
  have r5: "read_lines DAList.empty
              [''1'' @ [tab] @ ''A'' @ [tab] @ ''2'' @ [tab] @ ''B'' @ [tab, CHR 0x0A]]
            = add_edge DAList.empty ''A'' ''B''"
    by (simp only: read_lines.simps Let_def l5) simp
  have r4: "read_lines DAList.empty [[tab] @ ''A'' @ [tab] @ ''2'' @ [tab] @ ''B'' @ [CHR 0x0A]]
            = DAList.empty"
    by (simp only: read_lines.simps Let_def l4) simp
  have r3: "read_lines DAList.empty [''1'' @ [tab] @ ''A'' @ [tab] @ ''2'' @ [tab, CHR 0x0A]]
            = DAList.empty"
    by (simp only: read_lines.simps Let_def l3) simp
  have t5: "tab_separated_fields
              (''1'' @ [tab] @ ''A'' @ [tab] @ ''2'' @ [tab] @ ''B'' @ [tab, CHR 0x0A])
            = [''1'', ''A'', ''2'', ''B'', []]"
    by (simp add: tab_separated_fields_def chomp_def tab_def)
  have t4: "tab_separated_fields ([tab] @ ''A'' @ [tab] @ ''2'' @ [tab] @ ''B'' @ [CHR 0x0A])
            = [[], ''A'', ''2'', ''B'']"
    by (simp add: tab_separated_fields_def chomp_def tab_def)
  have t3: "tab_separated_fields (''1'' @ [tab] @ ''A'' @ [tab] @ ''2'' @ [tab, CHR 0x0A])
            = [''1'', ''A'', ''2'', []]"
    by (simp add: tab_separated_fields_def chomp_def tab_def)
  have stop: "build_graph_from_file empty_graph (Some []) Map.empty = Inl StopIteration"
    by (simp add: build_graph_from_file_def)
  show ?thesis
    by (simp only: t5 t4 t3 r5 r4 r3 edge stop DAList.empty.rep_eq simp_thms)
qed



lemma links_closed_iff:
  "links_closed adj
     = (\<forall>k links. DAList.lookup adj k = Some links \<longrightarrow> (\<forall>l \<in> set links. contains adj l))"
proof -
  have "(DAList.lookup adj k = Some links) = ((k, links) \<in> set (DAList.impl_of adj))" for k links
    by (simp add: DAList.lookup.rep_eq)
  then show ?thesis
    by (auto simp: links_closed_def list_all_iff)
qed

lemma links_closed_add_edge:
  assumes "links_closed adj"
  shows "links_closed (add_edge adj f t)"
  unfolding links_closed_iff
proof (intro allI impI ballI)
  fix k links l
  assume look: "DAList.lookup (add_edge adj f t) k = Some links" and l: "l \<in> set links"
  have old: "contains adj l'" if "DAList.lookup adj k' = Some links'" "l' \<in> set links'"
    for k' links' l'
    using assms that unfolding links_closed_iff by blast
  have "contains adj l \<or> l = t"
  proof (cases "k = f")
    case True
    then have "links = (case DAList.lookup adj f of None \<Rightarrow> [] | Some ls \<Rightarrow> ls) @ [t]"
      using look by (simp add: lookup_add_edge)
    then show ?thesis using l old [of f] by (auto split: option.splits)
  next
    case False
    show ?thesis
    proof (cases "k = t")
      case True
      then have "links = (case DAList.lookup adj t of None \<Rightarrow> [] | Some ls \<Rightarrow> ls)"
        using look False by (simp add: lookup_add_edge)
      then show ?thesis using l old [of t] by (auto split: option.splits)
    next
      case k_ne: False
      then have "DAList.lookup adj k = Some links"
        using look False by (simp add: lookup_add_edge)
      then show ?thesis using l old by blast
    qed
  qed
  then show "contains (add_edge adj f t) l" by (auto simp: contains_add_edge)
qed

lemma links_closed_add_edges:
  "links_closed adj \<Longrightarrow> links_closed (add_edges adj rs)"
  unfolding add_edges_def
  by (induction rs arbitrary: adj) (simp_all add: links_closed_add_edge)

text \<open>
  Loading keeps the invariant of the data model, and the empty mapping has it: in a graph
  built by \<open>build_graph_from_file\<close> from an empty one every link target has an entry.
\<close>

lemma links_closed_empty: "links_closed DAList.empty"
  by (simp add: links_closed_def DAList.empty.rep_eq)

lemma links_closed_build_graph_from_file:
  "links_closed (adj_list g) \<Longrightarrow>
   build_graph_from_file g (Some (header # lines)) fs = Inr (g', fs') \<Longrightarrow>
   links_closed (adj_list g')"
  by (auto simp: build_graph_from_file_eq links_closed_add_edges)

subsection \<open>The degree report\<close>

lemma in_degree_zero_iff: "(get_in_degree g t = 0) = (t \<notin> link_targets g)"
proof -
  have "(get_in_degree g t = 0)
          = (filter (\<lambda>entry. t \<in> set (snd entry)) (DAList.impl_of (adj_list g)) = [])"
    by (simp add: get_in_degree_def count_in_links_eq)
  also have "\<dots> = (\<forall>entry \<in> set (DAList.impl_of (adj_list g)). t \<notin> set (snd entry))"
    by (simp add: filter_empty_conv)
  also have "\<dots> = (t \<notin> link_targets g)"
    by (simp add: link_targets_def)
  finally show ?thesis .
qed

lemma load_cache_after_cache_data:
  "load_cache g2 file_name (cache_data g1 file_name fs) = Some (g2\<lparr>adj_list := adj_list g1\<rparr>, True)"
  by (simp add: load_cache_def cache_data_def json_round_trip)

text \<open>
  C8. \<open>get_connections\<close> returns the stored out-link sequence of a title that has an entry
  and the empty sequence for any other title; it has no failing branch. The degree report
  is built from it and from one pass over the mapping. For a title absent from the graph
  it reports out-degree 0 and in-degree 0, the graph being one of the data model, in
  which every link target has an entry: the in-degree of a title is 0 exactly when the
  title is no link target. The empty mapping is such a graph, loading an edge list keeps
  it one, and the cache file that the load writes gives the same mapping back.
\<close>

theorem degrees_never_fail:
  "(\<forall>links. DAList.lookup (adj_list g) t = Some links \<longrightarrow> get_connections g t = links)
   \<and> (\<not> contains (adj_list g) t \<longrightarrow> get_connections g t = [] \<and> get_out_degree g t = 0)
   \<and> (get_in_degree g t = 0) = (t \<notin> link_targets g)
   \<and> (links_closed (adj_list g) \<and> \<not> contains (adj_list g) t \<longrightarrow>
         print_degrees g t = \<lparr>page = t, out_degree = 0, in_degree = 0\<rparr>)
   \<and> links_closed (DAList.empty :: adjacency)
   \<and> (links_closed (adj_list g0)
        \<and> build_graph_from_file g0 (Some (header # lines)) fs = Inr (g1, fs1) \<longrightarrow>
         links_closed (adj_list g1)
         \<and> load_cache g2 (cache_file g0) fs1 = Some (g2\<lparr>adj_list := adj_list g1\<rparr>, True))"
proof (intro conjI allI impI)
  fix links assume "DAList.lookup (adj_list g) t = Some links"
  then show "get_connections g t = links" by (simp add: get_connections_def)
next
  assume "\<not> contains (adj_list g) t"
  then show "get_connections g t = []" by (simp add: get_connections_def contains_def)
  then show "get_out_degree g t = 0" by (simp add: get_out_degree_def)
next
  show "(get_in_degree g t = 0) = (t \<notin> link_targets g)" by (rule in_degree_zero_iff)
next
  assume h: "links_closed (adj_list g) \<and> \<not> contains (adj_list g) t"
  then have "get_in_degree g t = 0" by (simp add: in_degree_absent)
  moreover have "get_out_degree g t = 0"
    using h by (simp add: get_out_degree_def get_connections_def contains_def)
  ultimately show "print_degrees g t = \<lparr>page = t, out_degree = 0, in_degree = 0\<rparr>"
    by (simp add: print_degrees_def)
next
  show "links_closed (DAList.empty :: adjacency)" by (rule links_closed_empty)
next
  assume h: "links_closed (adj_list g0)
        \<and> build_graph_from_file g0 (Some (header # lines)) fs = Inr (g1, fs1)"
  then show "links_closed (adj_list g1)"
    using links_closed_build_graph_from_file by blast
  have "fs1 = cache_data g1 (cache_file g0) fs"
    using h by (auto simp: build_graph_from_file_eq)
  then show "load_cache g2 (cache_file g0) fs1 = Some (g2\<lparr>adj_list := adj_list g1\<rparr>, True)"
    by (simp add: load_cache_after_cache_data)
qed

text \<open>
  In the fixture graph, which has the invariant, \<open>A\<close> has its three stored out-links, the
  absent title \<open>Q\<close> has no out-links, out-degree 0 and in-degree 0, and \<open>X\<close>, a link
  target, has in-degree 3. The graph loaded from the example edge list has the invariant
  too, and the absent title \<open>Q\<close> has the same report there.
\<close>

theorem degrees_never_fail_witness:
  "DAList.lookup (adj_list fixture_graph) ''A'' = Some [''X'', ''Y'', ''Z'']
   \<and> get_connections fixture_graph ''A'' = [''X'', ''Y'', ''Z'']
   \<and> \<not> contains (adj_list fixture_graph) ''Q''
   \<and> links_closed (adj_list fixture_graph)
   \<and> get_connections fixture_graph ''Q'' = []
   \<and> get_out_degree fixture_graph ''Q'' = 0
   \<and> get_in_degree fixture_graph ''Q'' = 0
   \<and> ''Q'' \<notin> link_targets fixture_graph
   \<and> print_degrees fixture_graph ''Q'' = \<lparr>page = ''Q'', out_degree = 0, in_degree = 0\<rparr>
   \<and> get_in_degree fixture_graph ''X'' = 3
   \<and> links_closed (adj_list empty_graph)
   \<and> build_graph_from_file empty_graph (Some edge_file) Map.empty
       = Inr (empty_graph\<lparr>adj_list := read_lines DAList.empty (tl edge_file)\<rparr>,
              cache_data (empty_graph\<lparr>adj_list := read_lines DAList.empty (tl edge_file)\<rparr>)
                ''wikigraph_cache.json'' Map.empty)
   \<and> links_closed (read_lines DAList.empty (tl edge_file))
   \<and> \<not> contains (read_lines DAList.empty (tl edge_file)) ''Q''
   \<and> print_degrees (empty_graph\<lparr>adj_list := read_lines DAList.empty (tl edge_file)\<rparr>) ''Q''
       = \<lparr>page = ''Q'', out_degree = 0, in_degree = 0\<rparr>"
proof -
  define loaded where "loaded = empty_graph\<lparr>adj_list := read_lines DAList.empty (tl edge_file)\<rparr>"
  have hd_tl: "edge_file = hd edge_file # tl edge_file" by (simp add: edge_file_def)
  have empty: "links_closed (adj_list empty_graph)"
    by (simp add: empty_graph_def links_closed_empty)
  have build: "build_graph_from_file empty_graph (Some (hd edge_file # tl edge_file)) Map.empty
     = Inr (loaded, cache_data loaded ''wikigraph_cache.json'' Map.empty)"
    by (simp add: build_graph_from_file_def Let_def loaded_def empty_graph_def)
  have adj: "adj_list loaded = read_lines DAList.empty (tl edge_file)"
    by (simp add: loaded_def)
  have closed: "links_closed (adj_list loaded)"
    using degrees_never_fail
      [of _ _ empty_graph "hd edge_file" "tl edge_file" Map.empty loaded
          "cache_data loaded ''wikigraph_cache.json'' Map.empty"]
      empty build by blast
  have "contains (adj_list loaded) ''Q''
          = (contains (adj_list empty_graph) ''Q''
             \<or> ''Q'' \<in> fst ` set (edge_records (tl edge_file))
             \<or> ''Q'' \<in> snd ` set (edge_records (tl edge_file)))"
    using add_edges_effect [of loaded empty_graph "edge_records (tl edge_file)" "''Q''"]
    by (simp add: adj empty_graph_def read_lines_eq)
  then have absent: "\<not> contains (adj_list loaded) ''Q''"
    by (simp add: edge_records_edge_file empty_graph_def contains_def)
  have report: "print_degrees loaded ''Q'' = \<lparr>page = ''Q'', out_degree = 0, in_degree = 0\<rparr>"
    using degrees_never_fail [of loaded "''Q''"] closed absent by blast
  have fixture_absent: "\<not> contains (adj_list fixture_graph) ''Q''"
    by (simp add: contains_def fixture_graph_def lookup_fixture_links)
  have fixture_report:
    "print_degrees fixture_graph ''Q'' = \<lparr>page = ''Q'', out_degree = 0, in_degree = 0\<rparr>"
    using degrees_never_fail [of fixture_graph "''Q''"] links_closed_fixture fixture_absent
    by blast
  then have q_in: "get_in_degree fixture_graph ''Q'' = 0"
    and q_out: "get_out_degree fixture_graph ''Q'' = 0"
    by (simp_all add: print_degrees_def)
  have q_target: "''Q'' \<notin> link_targets fixture_graph"
    using degrees_never_fail [of fixture_graph "''Q''"] q_in by blast
  have q_links: "get_connections fixture_graph ''Q'' = []"
    using degrees_never_fail [of fixture_graph "''Q''"] fixture_absent by blast
  have a_look: "DAList.lookup (adj_list fixture_graph) ''A'' = Some [''X'', ''Y'', ''Z'']"
    by (simp add: fixture_graph_def lookup_fixture_links)
  then have a_links: "get_connections fixture_graph ''A'' = [''X'', ''Y'', ''Z'']"
    using degrees_never_fail [of fixture_graph "''A''"] by blast
  have x_in: "get_in_degree fixture_graph ''X'' = 3"
    using fixture_degrees by (rule conjunct2)
  have build': "build_graph_from_file empty_graph (Some edge_file) Map.empty
     = Inr (loaded, cache_data loaded ''wikigraph_cache.json'' Map.empty)"
    using build by (simp only: hd_tl [symmetric])
  have closed': "links_closed (read_lines DAList.empty (tl edge_file))"
    using closed unfolding adj .
  have absent': "\<not> contains (read_lines DAList.empty (tl edge_file)) ''Q''"
    using absent unfolding adj .
  show ?thesis
    using a_look a_links fixture_absent links_closed_fixture q_links q_out q_in q_target
      fixture_report x_in empty build' [unfolded loaded_def] closed' absent'
      report [unfolded loaded_def]
    by (intro conjI)
qed

end
